theory Spec2Isabelle
  imports Complex_Main "HOL-Library.Word"
begin

unbundle bit_operations_syntax

section \<open>Font utilities of pdf.js: \<^verbatim>\<open>src/core/fonts_utils.js\<close>\<close>

text \<open>
  A shallow embedding of \<^verbatim>\<open>recoverGlyphName\<close>, \<^verbatim>\<open>type1FontGlyphMapping\<close>,
  \<^verbatim>\<open>normalizeFontName\<close> and \<^verbatim>\<open>compileType3Glyph\<close>. JavaScript values that the
  functions can meet are a small datatype, objects with integer keys are association lists in
  their \<^verbatim>\<open>for ... in\<close> order, typed arrays are lists whose out-of-range reads give
  \<^verbatim>\<open>undefined\<close> and whose out-of-range writes are dropped, and a loop that the source
  does not bound is a partial function whose value \<open>None\<close> means that it never returns.
\<close>

subsection \<open>JavaScript values and objects\<close>

datatype jsval = Undefined | Num int | Str string

text \<open>
  An object whose own enumerable keys are array indices: the pairs are listed in the order in
  which \<^verbatim>\<open>for (k in obj)\<close> visits them, \<open>obj[k]\<close> is the value of the first pair
  with key \<open>k\<close> (the keys of a JavaScript object are distinct) and \<^verbatim>\<open>undefined\<close> for a
  key that is absent.
\<close>

type_synonym 'v jsobject = "(nat \<times> 'v) list"

definition getProp :: "jsval jsobject \<Rightarrow> nat \<Rightarrow> jsval" where
  "getProp obj k = (case map_of obj k of None \<Rightarrow> Undefined | Some v \<Rightarrow> v)"

text \<open>
  \<^verbatim>\<open>Array.prototype.indexOf\<close> on an array of strings compares with \<^verbatim>\<open>===\<close>: a
  value that is not a string is never found. The result is the first index, or \<open>-1\<close>.
\<close>

fun indexOfStr :: "string list \<Rightarrow> string \<Rightarrow> int \<Rightarrow> int" where
  "indexOfStr [] s k = -1"
| "indexOfStr (x # xs) s k = (if x = s then k else indexOfStr xs s (k + 1))"

fun indexOf :: "string list \<Rightarrow> jsval \<Rightarrow> int" where
  "indexOf xs (Str s) = indexOfStr xs s 0"
| "indexOf xs Undefined = -1"
| "indexOf xs (Num n) = -1"

subsection \<open>\<^verbatim>\<open>recoverGlyphName\<close>\<close>

text \<open>
  The glyph-name-to-Unicode map is an object with string keys, listed in enumeration order;
  its values are code points. \<^verbatim>\<open>getUnicodeForGlyph\<close> lives in \<^verbatim>\<open>unicode.js\<close>, outside
  this file, and is a parameter. The diagnostic \<^verbatim>\<open>info(...)\<close> has no effect on the result.
\<close>

type_synonym glyphs_unicode = "(string \<times> int) list"

fun firstKeyWith :: "glyphs_unicode \<Rightarrow> int \<Rightarrow> string list \<Rightarrow> string option" where
  "firstKeyWith m unicode [] = None"
| "firstKeyWith m unicode (key # keys) =
     (if map_of m key = Some unicode then Some key else firstKeyWith m unicode keys)"

definition recoverGlyphName ::
  "(string \<Rightarrow> glyphs_unicode \<Rightarrow> int) \<Rightarrow> string \<Rightarrow> glyphs_unicode \<Rightarrow> string" where
  "recoverGlyphName getUnicodeForGlyph name glyphsUnicodeMap =
     (if map_of glyphsUnicodeMap name \<noteq> None then name
      else
        let unicode = getUnicodeForGlyph name glyphsUnicodeMap in
        if unicode \<noteq> -1 then
          (case firstKeyWith glyphsUnicodeMap unicode (map fst glyphsUnicodeMap) of
             Some key \<Rightarrow> key
           | None \<Rightarrow> name)
        else name)"

subsection \<open>\<^verbatim>\<open>type1FontGlyphMapping\<close>\<close>

text \<open>
  \<^verbatim>\<open>for (k in obj) body\<close>: the body runs once for every own key, in order, with
  \<open>obj[k]\<close> the value paired with the key.
\<close>

definition forIn :: "'v jsobject \<Rightarrow> (nat \<Rightarrow> 'v \<Rightarrow> 's \<Rightarrow> 's) \<Rightarrow> 's \<Rightarrow> 's" where
  "forIn obj body s = fold (\<lambda>(k, v). body k v) obj s"

text \<open>
  The font properties that the function reads. \<^verbatim>\<open>baseEncodingName\<close> and
  \<^verbatim>\<open>differences\<close> may be absent (\<open>None\<close>); the values of \<^verbatim>\<open>differences\<close> are glyph
  names.
\<close>

record properties =
  flags :: int
  isInternalFont :: bool
  baseEncodingName :: "string option"
  differences :: "string jsobject option"

text \<open>
  The built-in encoding is read in two ways: through \<^verbatim>\<open>.length\<close> and indices (an array of
  glyph names), and through \<^verbatim>\<open>for ... in\<close> (glyph ids by char code). \<open>arrayLength\<close> is
  the value of \<^verbatim>\<open>.length\<close>, \<open>None\<close> for an object that has none; then
  \<^verbatim>\<open>charCode < undefined\<close> is false and the indexed loop does not run.
\<close>

record encoding =
  arrayLength :: "nat option"
  entries :: "jsval jsobject"

text \<open>
  What the function imports from \<^verbatim>\<open>encodings.js\<close>, \<^verbatim>\<open>glyphlist.js\<close> and
  \<^verbatim>\<open>unicode.js\<close>, none of them in this file, is a parameter. A named encoding is an array
  of glyph names; \<^verbatim>\<open>getEncoding\<close> may know no table for a name (\<open>None\<close>), and reading
  \<^verbatim>\<open>.length\<close> of that result throws.
\<close>

record environment =
  getEncoding :: "string \<Rightarrow> string list option"
  StandardEncoding :: "string list"
  getGlyphsUnicode :: glyphs_unicode
  getUnicodeForGlyph :: "string \<Rightarrow> glyphs_unicode \<Rightarrow> int"

datatype js_error = TypeError

definition FontFlags_Symbolic :: int where
  "FontFlags_Symbolic = 4"

definition isSymbolicFont :: "properties \<Rightarrow> bool" where
  "isSymbolicFont properties = (flags properties AND FontFlags_Symbolic \<noteq> 0)"

text \<open>A string is truthy unless it is empty; an absent property is falsy.\<close>

fun truthyName :: "string option \<Rightarrow> bool" where
  "truthyName None = False"
| "truthyName (Some s) = (s \<noteq> [])"

text \<open>
  The loop that the first, second and fourth branch share:
  \<^verbatim>\<open>for (charCode = 0; charCode < baseEncoding.length; charCode++)\<close>, with \<open>elemAt\<close> reading
  \<^verbatim>\<open>baseEncoding[charCode]\<close>.
\<close>

function translateLoop ::
  "string list \<Rightarrow> (nat \<Rightarrow> jsval) \<Rightarrow> nat \<Rightarrow> nat \<Rightarrow> (nat \<rightharpoonup> jsval) \<Rightarrow> (nat \<rightharpoonup> jsval)" where
  "translateLoop glyphNames elemAt len charCode charCodeToGlyphId =
     (if charCode < len then
        let glyphId = indexOf glyphNames (elemAt charCode) in
        translateLoop glyphNames elemAt len (charCode + 1)
          (charCodeToGlyphId(charCode \<mapsto> Num (if glyphId \<ge> 0 then glyphId else 0)))
      else charCodeToGlyphId)"
  by pat_completeness auto
termination
  by (relation "measure (\<lambda>(glyphNames, elemAt, len, charCode, m). len - charCode)") auto

declare translateLoop.simps [simp del]

definition arrayAt :: "string list \<Rightarrow> nat \<Rightarrow> jsval" where
  "arrayAt xs i = (if i < length xs then Str (xs ! i) else Undefined)"

definition baseMapping ::
  "environment \<Rightarrow> properties \<Rightarrow> encoding \<Rightarrow> string list \<Rightarrow> js_error + (nat \<rightharpoonup> jsval)" where
  "baseMapping env properties builtInEncoding glyphNames =
     (if isInternalFont properties then
        Inr (translateLoop glyphNames (getProp (entries builtInEncoding))
               (case arrayLength builtInEncoding of None \<Rightarrow> 0 | Some n \<Rightarrow> n) 0 Map.empty)
      else if truthyName (baseEncodingName properties) then
        (case getEncoding env (the (baseEncodingName properties)) of
           None \<Rightarrow> Inl TypeError
         | Some baseEncoding \<Rightarrow>
             Inr (translateLoop glyphNames (arrayAt baseEncoding) (length baseEncoding) 0
                    Map.empty))
      else if isSymbolicFont properties then
        Inr (forIn (entries builtInEncoding) (\<lambda>charCode v m. m(charCode \<mapsto> v)) Map.empty)
      else
        Inr (translateLoop glyphNames (arrayAt (StandardEncoding env))
               (length (StandardEncoding env)) 0 Map.empty))"

definition differenceGlyphId :: "environment \<Rightarrow> string list \<Rightarrow> string \<Rightarrow> int" where
  "differenceGlyphId env glyphNames glyphName =
     (let glyphId = indexOf glyphNames (Str glyphName);
          glyphId =
            (if glyphId = -1 then
               let standardGlyphName =
                     recoverGlyphName (getUnicodeForGlyph env) glyphName (getGlyphsUnicode env)
               in if standardGlyphName \<noteq> glyphName
                  then indexOf glyphNames (Str standardGlyphName) else glyphId
             else glyphId)
      in if glyphId \<ge> 0 then glyphId else 0)"

definition type1FontGlyphMapping ::
  "environment \<Rightarrow> properties \<Rightarrow> encoding \<Rightarrow> string list \<Rightarrow> js_error + (nat \<rightharpoonup> jsval)" where
  "type1FontGlyphMapping env properties builtInEncoding glyphNames =
     (case baseMapping env properties builtInEncoding glyphNames of
        Inl e \<Rightarrow> Inl e
      | Inr charCodeToGlyphId \<Rightarrow>
          (case differences properties of
             None \<Rightarrow> Inr charCodeToGlyphId
           | Some diffObj \<Rightarrow>
               Inr (forIn diffObj
                      (\<lambda>charCode glyphName m.
                         m(charCode \<mapsto> Num (differenceGlyphId env glyphNames glyphName)))
                      charCodeToGlyphId)))"

text \<open>The entry of a char code in the returned map; \<open>None\<close> when the call threw.\<close>

definition glyphIdAt :: "js_error + (nat \<rightharpoonup> jsval) \<Rightarrow> nat \<Rightarrow> jsval option" where
  "glyphIdAt r charCode = (case r of Inl e \<Rightarrow> None | Inr m \<Rightarrow> m charCode)"

text \<open>The keys of \<^verbatim>\<open>properties.differences\<close>.\<close>

definition differenceKeys :: "properties \<Rightarrow> nat set" where
  "differenceKeys properties =
     (case differences properties of None \<Rightarrow> {} | Some diffObj \<Rightarrow> fst ` set diffObj)"

text \<open>A glyph id of the glyph-name list: a number in \<open>[0, len(glyphNames))\<close>.\<close>

fun validGlyphId :: "string list \<Rightarrow> jsval \<Rightarrow> bool" where
  "validGlyphId glyphNames (Num n) = (0 \<le> n \<and> n < int (length glyphNames))"
| "validGlyphId glyphNames Undefined = False"
| "validGlyphId glyphNames (Str s) = False"

text \<open>
  The specification's words for the base pass: a table of glyph names is translated entry by
  entry through the glyph-name list, a miss giving id 0.
\<close>

definition translatedByName ::
  "string list \<Rightarrow> nat \<Rightarrow> (nat \<Rightarrow> jsval) \<Rightarrow> nat \<Rightarrow> jsval option" where
  "translatedByName glyphNames len table charCode =
     (if charCode < len then
        Some (Num (if indexOf glyphNames (table charCode) = -1 then 0
                   else indexOf glyphNames (table charCode)))
      else None)"

text \<open>
  The specification's words for a difference entry: the index of the name, retried with the
  recovered name when the first lookup misses, and 0 if still unresolved.
\<close>

definition derivedFromDifference :: "environment \<Rightarrow> string list \<Rightarrow> string \<Rightarrow> int" where
  "derivedFromDifference env glyphNames glyphName =
     (if indexOf glyphNames (Str glyphName) \<noteq> -1 then indexOf glyphNames (Str glyphName)
      else if indexOf glyphNames
                (Str (recoverGlyphName (getUnicodeForGlyph env) glyphName (getGlyphsUnicode env)))
              \<noteq> -1
      then indexOf glyphNames
             (Str (recoverGlyphName (getUnicodeForGlyph env) glyphName (getGlyphsUnicode env)))
      else 0)"

text \<open>
  A small environment for concrete runs: one named encoding, a three-entry standard table, a
  two-entry glyph list and a resolver that knows one synthetic name.
\<close>

definition exampleEnv :: environment where
  "exampleEnv =
     \<lparr>getEncoding = (\<lambda>n. if n = ''WinAnsiEncoding'' then Some [''space'', ''A''] else None),
      StandardEncoding = ['''', ''A'', ''B''],
      getGlyphsUnicode = [(''A'', 65), (''B'', 66)],
      getUnicodeForGlyph = (\<lambda>n m. if n = ''uni0042'' then 66 else -1)\<rparr>"

subsection \<open>\<^verbatim>\<open>normalizeFontName\<close>\<close>

text \<open>
  A JavaScript string is a sequence of UTF-16 code units. \<^verbatim>\<open>replaceAll\<close> with a global
  regular expression that is a single character class replaces every code unit of the class
  by the replacement string. The class \<^verbatim>\<open>\s\<close> is ECMAScript's WhiteSpace and
  LineTerminator: tab, line feed, vertical tab, form feed, carriage return, space, no-break
  space, U+1680, U+2000 to U+200A, U+2028, U+2029, U+202F, U+205F, U+3000 and U+FEFF.
\<close>

type_synonym jsstring = "16 word list"

definition replaceAllClass :: "(16 word \<Rightarrow> bool) \<Rightarrow> jsstring \<Rightarrow> jsstring \<Rightarrow> jsstring" where
  "replaceAllClass cls replacement s =
     concat (map (\<lambda>c. if cls c then replacement else [c]) s)"

definition commaOrUnderscore :: "16 word \<Rightarrow> bool" where
  "commaOrUnderscore c = (c = 0x2C \<or> c = 0x5F)"

definition whiteSpace :: "16 word \<Rightarrow> bool" where
  "whiteSpace c =
     (c = 0x09 \<or> c = 0x0A \<or> c = 0x0B \<or> c = 0x0C \<or> c = 0x0D \<or> c = 0x20 \<or> c = 0xA0
      \<or> c = 0x1680 \<or> (0x2000 \<le> c \<and> c \<le> 0x200A) \<or> c = 0x2028 \<or> c = 0x2029
      \<or> c = 0x202F \<or> c = 0x205F \<or> c = 0x3000 \<or> c = 0xFEFF)"

definition normalizeFontName :: "jsstring \<Rightarrow> jsstring" where
  "normalizeFontName name =
     replaceAllClass whiteSpace [] (replaceAllClass commaOrUnderscore [0x2D] name)"

text \<open>The reading of the specification: the three kinds of character are removed.\<close>

definition stripped :: "jsstring \<Rightarrow> jsstring" where
  "stripped name = filter (\<lambda>c. \<not> commaOrUnderscore c \<and> \<not> whiteSpace c) name"

subsection \<open>\<^verbatim>\<open>compileType3Glyph\<close>\<close>

text \<open>
  Typed arrays are lists of numbers. A read outside the array gives \<^verbatim>\<open>undefined\<close>
  (\<open>None\<close>), which is falsy and differs from every number; a write outside the array is
  dropped. Every value that the function stores is below 256, so no store wraps.
\<close>

definition rd :: "nat list \<Rightarrow> int \<Rightarrow> nat option" where
  "rd xs i = (if 0 \<le> i \<and> i < int (length xs) then Some (xs ! nat i) else None)"

definition wr :: "nat list \<Rightarrow> int \<Rightarrow> nat \<Rightarrow> nat list" where
  "wr xs i v = (if 0 \<le> i \<and> i < int (length xs) then xs[nat i := v] else xs)"

fun truthy :: "nat option \<Rightarrow> bool" where
  "truthy None = False"
| "truthy (Some v) = (v \<noteq> 0)"

record bitmap_glyph =
  data :: "8 word list"
  width :: nat
  height :: nat

definition MAX_SIZE_TO_COMPILE :: nat where
  "MAX_SIZE_TO_COMPILE = 1000"

definition POINT_TO_PROCESS_LIMIT :: int where
  "POINT_TO_PROCESS_LIMIT = 1000"

definition POINT_TYPES :: "nat list" where
  "POINT_TYPES = [0, 2, 4, 0, 1, 0, 5, 4, 8, 10, 0, 8, 0, 2, 1, 0]"

text \<open>\<^verbatim>\<open>(width + 7) & ~7\<close>\<close>

definition lineSizeOf :: "nat \<Rightarrow> nat" where
  "lineSizeOf w = nat ((int w + 7) AND NOT 7)"

paragraph \<open>Decoding the bit-packed mask\<close>

text \<open>
  The inner loop \<^verbatim>\<open>while (mask > 0) { data[pos++] = elem & mask ? 0 : 255; mask >>= 1; }\<close>
  and the loop over the bytes of the image. \<open>pos\<close> counts up from 0.
\<close>

function unpackMask :: "nat \<Rightarrow> nat \<Rightarrow> nat list \<times> nat \<Rightarrow> nat list \<times> nat" where
  "unpackMask elem bitMask (dat, pos) =
     (if bitMask > 0 then
        unpackMask elem (drop_bit 1 bitMask)
          (wr dat (int pos) (if elem AND bitMask \<noteq> 0 then 0 else 255), pos + 1)
      else (dat, pos))"
  by pat_completeness auto
termination
  by (relation "measure (\<lambda>(elem, bitMask, st). bitMask)") (auto simp: drop_bit_eq_div)

declare unpackMask.simps [simp del]

definition unpack :: "8 word list \<Rightarrow> nat \<Rightarrow> nat list" where
  "unpack img n =
     fst (fold (\<lambda>elem st. unpackMask (unat elem) 128 st) img (replicate n 0, 0))"

text \<open>
  The byte that the decoder writes for bit \<open>k\<close> of the packed image, counting the bits of
  each byte from the most significant: 0 for a set bit, 255 for a clear one.
\<close>

definition pixelByte :: "8 word list \<Rightarrow> nat \<Rightarrow> nat" where
  "pixelByte img k = (if bit (img ! (k div 8)) (7 - k mod 8) then 0 else 255)"

paragraph \<open>Finding the interesting points\<close>

text \<open>
  The loop of the first and of the last row,
  \<^verbatim>\<open>for (j = 1; j < width; j++) { if (data[pos] !== data[pos + 1]) { points[j0 + j] = data[pos] ? a : b; ++count; } pos++; }\<close>,
  with \<open>j0 = 0\<close>, \<open>a = 2\<close>, \<open>b = 1\<close> in the first row and \<open>a = 4\<close>, \<open>b = 8\<close> in the
  last. The loops return the points, the count and the values of \<open>pos\<close> and \<open>j\<close> on exit.
\<close>

function borderLoop ::
  "nat list \<Rightarrow> int \<Rightarrow> int \<Rightarrow> nat \<Rightarrow> nat \<Rightarrow> int \<Rightarrow> int \<Rightarrow> nat list \<times> int
     \<Rightarrow> (nat list \<times> int) \<times> int \<times> int" where
  "borderLoop dat w j0 a b j pos (points, count) =
     (if j < w then
        borderLoop dat w j0 a b (j + 1) (pos + 1)
          (if rd dat pos \<noteq> rd dat (pos + 1)
           then (wr points (j0 + j) (if truthy (rd dat pos) then a else b), count + 1)
           else (points, count))
      else ((points, count), pos, j))"
  by pat_completeness auto
termination
  by (relation "measure (\<lambda>(dat, w, j0, a, b, j, pos, st). nat (w - j))") auto

declare borderLoop.simps [simp del]

definition firstRow :: "nat list \<Rightarrow> int \<Rightarrow> nat list \<times> int \<Rightarrow> nat list \<times> int" where
  "firstRow dat w st =
     (let (points, count) = st;
          st = (if rd dat 0 \<noteq> Some 0 then (wr points 0 1, count + 1) else (points, count));
          ((points, count), pos, j) = borderLoop dat w 0 2 1 1 0 st
      in if rd dat pos \<noteq> Some 0 then (wr points j 2, count + 1) else (points, count))"

text \<open>The inner loop of a middle row, with the running \<^verbatim>\<open>sum\<close> (here \<open>nsum\<close>) of the four neighbours.\<close>

function innerLoop ::
  "nat list \<Rightarrow> int \<Rightarrow> int \<Rightarrow> int \<Rightarrow> int \<Rightarrow> int \<Rightarrow> nat \<Rightarrow> nat list \<times> int
     \<Rightarrow> (nat list \<times> int) \<times> int \<times> int" where
  "innerLoop dat w lineSize j0 j pos nsum (points, count) =
     (if j < w then
        let nsum = drop_bit 2 nsum
                  + (if truthy (rd dat (pos + 1)) then 4 else 0)
                  + (if truthy (rd dat (pos - lineSize + 1)) then 8 else 0)
        in innerLoop dat w lineSize j0 (j + 1) (pos + 1) nsum
             (case rd POINT_TYPES (int nsum) of
                None \<Rightarrow> (points, count)
              | Some t \<Rightarrow> if t \<noteq> 0 then (wr points (j0 + j) t, count + 1) else (points, count))
      else ((points, count), pos, j))"
  by pat_completeness auto
termination
  by (relation "measure (\<lambda>(dat, w, lineSize, j0, j, pos, nsum, st). nat (w - j))") auto

declare innerLoop.simps [simp del]

definition middleRow ::
  "nat list \<Rightarrow> int \<Rightarrow> int \<Rightarrow> int \<Rightarrow> int \<Rightarrow> nat list \<times> int \<Rightarrow> nat list \<times> int" where
  "middleRow dat w lineSize width1 i st =
     (let (points, count) = st;
          pos = i * lineSize;
          j0 = i * width1;
          st = (if rd dat (pos - lineSize) \<noteq> rd dat pos
                then (wr points j0 (if truthy (rd dat pos) then 1 else 8), count + 1)
                else (points, count));
          nsum = (if truthy (rd dat pos) then 4 else 0)
                + (if truthy (rd dat (pos - lineSize)) then 8 else 0);
          ((points, count), pos, j) = innerLoop dat w lineSize j0 1 pos nsum st
      in if rd dat (pos - lineSize) \<noteq> rd dat pos
         then (wr points (j0 + j) (if truthy (rd dat pos) then 2 else 4), count + 1)
         else (points, count))"

text \<open>
  \<^verbatim>\<open>for (i = 1; i < height; i++) { ...; if (count > POINT_TO_PROCESS_LIMIT) return null; }\<close>:
  \<open>None\<close> is the early return, otherwise the points, the count and \<open>i\<close> on exit.
\<close>

function rowsLoop ::
  "nat list \<Rightarrow> int \<Rightarrow> int \<Rightarrow> int \<Rightarrow> int \<Rightarrow> int \<Rightarrow> nat list \<times> int
     \<Rightarrow> ((nat list \<times> int) \<times> int) option" where
  "rowsLoop dat w h lineSize width1 i st =
     (if i < h then
        let (points, count) = middleRow dat w lineSize width1 i st
        in if count > POINT_TO_PROCESS_LIMIT then None
           else rowsLoop dat w h lineSize width1 (i + 1) (points, count)
      else Some (st, i))"
  by pat_completeness auto
termination
  by (relation "measure (\<lambda>(dat, w, h, lineSize, width1, i, st). nat (h - i))") auto

declare rowsLoop.simps [simp del]

definition lastRow ::
  "nat list \<Rightarrow> int \<Rightarrow> int \<Rightarrow> int \<Rightarrow> int \<Rightarrow> int \<Rightarrow> nat list \<times> int \<Rightarrow> nat list \<times> int" where
  "lastRow dat w h lineSize width1 i st =
     (let (points, count) = st;
          pos = lineSize * (h - 1);
          j0 = i * width1;
          st = (if rd dat pos \<noteq> Some 0 then (wr points j0 8, count + 1) else (points, count));
          ((points, count), pos, j) = borderLoop dat w j0 4 8 1 pos st
      in if rd dat pos \<noteq> Some 0 then (wr points (j0 + j) 4, count + 1) else (points, count))"

text \<open>The whole classification; \<open>None\<close> is a \<^verbatim>\<open>return null\<close>.\<close>

definition classify ::
  "nat list \<Rightarrow> int \<Rightarrow> int \<Rightarrow> int \<Rightarrow> int \<Rightarrow> nat list \<Rightarrow> (nat list \<times> int) option" where
  "classify dat w h lineSize width1 points =
     (case rowsLoop dat w h lineSize width1 1 (firstRow dat w (points, 0)) of
        None \<Rightarrow> None
      | Some (st, i) \<Rightarrow>
          let (points, count) = lastRow dat w h lineSize width1 i st
          in if count > POINT_TO_PROCESS_LIMIT then None else Some (points, count))"

paragraph \<open>Building the outlines\<close>

text \<open>
  \<^verbatim>\<open>DrawOPS\<close> comes from \<^verbatim>\<open>shared/util.js\<close>; only the two operations that the function
  pushes are needed. One \<^verbatim>\<open>pathBuf.push(op, x, y)\<close> is one command of the path. Coordinates
  are exact rationals: the source computes them in double precision from the same
  expressions.
\<close>

datatype draw_op = moveTo | lineTo

type_synonym path_cmd = "draw_op \<times> rat \<times> rat"

text \<open>
  \<^verbatim>\<open>new DOMMatrix().scaleSelf(1 / width, -1 / height).translateSelf(0, -height)\<close>: a matrix
  is its six entries \<open>(a, b, c, d, e, f)\<close>, and both operations multiply from the right.
\<close>

type_synonym matrix = "rat \<times> rat \<times> rat \<times> rat \<times> rat \<times> rat"

definition scaleSelf :: "rat \<Rightarrow> rat \<Rightarrow> matrix \<Rightarrow> matrix" where
  "scaleSelf sx sy m = (case m of (a, b, c, d, e, f) \<Rightarrow> (a * sx, b * sx, c * sy, d * sy, e, f))"

definition translateSelf :: "rat \<Rightarrow> rat \<Rightarrow> matrix \<Rightarrow> matrix" where
  "translateSelf tx ty m =
     (case m of (a, b, c, d, e, f) \<Rightarrow> (a, b, c, d, a * tx + c * ty + e, b * tx + d * ty + f))"

definition glyphMatrix :: "nat \<Rightarrow> nat \<Rightarrow> matrix" where
  "glyphMatrix w h =
     translateSelf 0 (- of_nat h) (scaleSelf (1 / of_nat w) (- 1 / of_nat h) (1, 0, 0, 1, 0, 0))"

text \<open>\<^verbatim>\<open>a * x + c * y + e, b * x + d * y + f\<close>\<close>

definition applyMatrix :: "matrix \<Rightarrow> int \<Rightarrow> int \<Rightarrow> rat \<times> rat" where
  "applyMatrix m x y =
     (case m of (a, b, c, d, e, f) \<Rightarrow>
        (a * of_int x + c * of_int y + e, b * of_int x + d * of_int y + f))"

text \<open>
  \<^verbatim>\<open>steps[type]\<close> of \<^verbatim>\<open>new Int32Array([0, width1, -1, 0, -width1, 0, 0, 0, 1])\<close>;
  \<open>None\<close> is \<^verbatim>\<open>undefined\<close>, for a type above 8.
\<close>

definition stepOf :: "int \<Rightarrow> nat \<Rightarrow> int option" where
  "stepOf width1 t =
     (if t < 9 then Some ([0, width1, -1, 0, - width1, 0, 0, 0, 1] ! t) else None)"

text \<open>\<^verbatim>\<open>while (p < end && !points[p]) p++;\<close>\<close>

function scanRow :: "nat list \<Rightarrow> int \<Rightarrow> int \<Rightarrow> int" where
  "scanRow points end p =
     (if p < end \<and> \<not> truthy (rd points p) then scanRow points end (p + 1) else p)"
  by pat_completeness auto
termination
  by (relation "measure (\<lambda>(points, end, p). nat (end - p))") auto

declare scanRow.simps [simp del]

text \<open>
  \<^verbatim>\<open>do { p += step; } while (!points[p]);\<close> The source does not bound this loop: once
  \<open>p\<close> leaves the array every read is \<^verbatim>\<open>undefined\<close> and the loop goes on for ever. The
  value \<open>None\<close> is that case.
\<close>

partial_function (option) advance :: "nat list \<Rightarrow> int \<Rightarrow> int \<Rightarrow> int option" where
  [code]: "advance points step p =
     (if \<not> truthy (rd points (p + step)) then advance points step (p + step)
      else Some (p + step))"

text \<open>
  The walk along one contour, \<^verbatim>\<open>do { ... } while (p0 !== p);\<close>. A step that is
  \<^verbatim>\<open>undefined\<close> makes \<open>p\<close> \<^verbatim>\<open>NaN\<close>, and the inner loop never ends. After the inner
  loop \<open>points[p]\<close> is a non-zero number, so \<open>p\<close> is an index of the array, where
  \<^verbatim>\<open>p % width1\<close> and \<^verbatim>\<open>(p / width1) | 0\<close> are \<open>mod\<close> and \<open>div\<close>.
\<close>

partial_function (option) walk ::
  "matrix \<Rightarrow> int \<Rightarrow> int \<Rightarrow> nat list \<times> int \<times> path_cmd list \<Rightarrow> nat \<Rightarrow> int
     \<Rightarrow> (nat list \<times> int \<times> path_cmd list) option" where
  [code]: "walk m width1 p0 st type p =
     (case stepOf width1 type of
        None \<Rightarrow> None
      | Some step \<Rightarrow>
          Option.bind (advance (fst st) step p) (\<lambda>p.
            case rd (fst st) p of
              None \<Rightarrow> None
            | Some pp \<Rightarrow>
                let (points, count, pathBuf) = st;
                    type = (if pp \<noteq> 5 \<and> pp \<noteq> 10 then pp
                            else pp AND drop_bit 4 (0x33 * type));
                    points = (if pp \<noteq> 5 \<and> pp \<noteq> 10 then wr points p 0
                              else wr points p (pp AND (drop_bit 2 type OR push_bit 2 type)));
                    x = p mod width1;
                    y = p div width1;
                    pathBuf = pathBuf @ [(lineTo, applyMatrix m x y)];
                    count = (if \<not> truthy (rd points p) then count - 1 else count)
                in if p0 \<noteq> p then walk m width1 p0 (points, count, pathBuf) type p
                   else Some (points, count, pathBuf)))"

text \<open>
  \<^verbatim>\<open>for (i = 0; count && i <= height; i++) { ... }\<close>: a row without a point in its first
  \<open>width\<close> columns is left by \<^verbatim>\<open>continue\<close>; after a contour \<^verbatim>\<open>--i\<close> and \<^verbatim>\<open>i++\<close>
  scan the same row again. The scan stops at \<open>end\<close> or at a point whose value is a non-zero
  number.
\<close>

partial_function (option) outlines ::
  "matrix \<Rightarrow> int \<Rightarrow> int \<Rightarrow> int \<Rightarrow> int \<Rightarrow> nat list \<times> int \<times> path_cmd list
     \<Rightarrow> (nat list \<times> int \<times> path_cmd list) option" where
  [code]: "outlines m w h width1 i st =
     (if fst (snd st) \<noteq> 0 \<and> i \<le> h then
        let p = scanRow (fst st) (i * width1 + w) (i * width1) in
        if p = i * width1 + w then outlines m w h width1 (i + 1) st
        else
          (case rd (fst st) p of
             None \<Rightarrow> None
           | Some type \<Rightarrow>
               let (points, count, pathBuf) = st;
                   x = p mod width1;
                   y = i;
                   pathBuf = pathBuf @ [(moveTo, applyMatrix m x y)]
               in Option.bind (walk m width1 p (points, count, pathBuf) type p)
                    (\<lambda>st. outlines m w h width1 i st))
      else Some st)"

text \<open>
  The result: \<^verbatim>\<open>null\<close>, or the path with the box \<open>[0, 0, width, height]\<close>. The value of
  \<open>compileType3Glyph\<close> is \<open>None\<close> when the call never returns.
\<close>

datatype compiled = Null | Outline "path_cmd list" "nat \<times> nat \<times> nat \<times> nat"

definition compileType3Glyph :: "bitmap_glyph \<Rightarrow> compiled option" where
  "compileType3Glyph glyph =
     (let img = data glyph; w = width glyph; h = height glyph in
      if w > MAX_SIZE_TO_COMPILE \<or> h > MAX_SIZE_TO_COMPILE then Some Null
      else
        let width1 = w + 1;
            points = replicate (width1 * (h + 1)) 0;
            lineSize = lineSizeOf w;
            dat = unpack img (lineSize * h)
        in case classify dat (int w) (int h) (int lineSize) (int width1) points of
             None \<Rightarrow> Some Null
           | Some (points, count) \<Rightarrow>
               map_option (\<lambda>(points, count, pathBuf). Outline pathBuf (0, 0, w, h))
                 (outlines (glyphMatrix w h) (int w) (int h) (int width1) 0
                    (points, count, [])))"

paragraph \<open>The running count and closed contours\<close>

text \<open>
  The count of classified points when no check interrupts the classification: the loop over
  the middle rows without its \<^verbatim>\<open>return null\<close>, and then the last row.
\<close>

function rowsAll ::
  "nat list \<Rightarrow> int \<Rightarrow> int \<Rightarrow> int \<Rightarrow> int \<Rightarrow> int \<Rightarrow> nat list \<times> int
     \<Rightarrow> (nat list \<times> int) \<times> int" where
  "rowsAll dat w h lineSize width1 i st =
     (if i < h then rowsAll dat w h lineSize width1 (i + 1) (middleRow dat w lineSize width1 i st)
      else (st, i))"
  by pat_completeness auto
termination
  by (relation "measure (\<lambda>(dat, w, h, lineSize, width1, i, st). nat (h - i))") auto

declare rowsAll.simps [simp del]

definition classifiedCount :: "bitmap_glyph \<Rightarrow> int" where
  "classifiedCount glyph =
     (let w = width glyph; h = height glyph;
          width1 = w + 1;
          points = replicate (width1 * (h + 1)) 0;
          lineSize = lineSizeOf w;
          dat = unpack (data glyph) (lineSize * h);
          (st, i) = rowsAll dat (int w) (int h) (int lineSize) (int width1) 1
                      (firstRow dat (int w) (points, 0))
      in snd (lastRow dat (int w) (int h) (int lineSize) (int width1) i st))"

text \<open>
  A path is read command by command. The state is the start of the contour that is open, if
  any, and the point of its latest line-to, if any. A move-to may only follow a contour
  whose latest line-to is at its start; a line-to needs an open contour.
\<close>

type_synonym contour_state = "(rat \<times> rat) option \<times> (rat \<times> rat) option"

fun contourStep :: "contour_state option \<Rightarrow> path_cmd \<Rightarrow> contour_state option" where
  "contourStep None c = None"
| "contourStep (Some (start, cur)) (moveTo, xy) =
     (if start = cur then Some (Some xy, None) else None)"
| "contourStep (Some (start, cur)) (lineTo, xy) =
     (if start = None then None else Some (start, Some xy))"

text \<open>
  Every contour of the path is closed: it has a line-to, and its last line-to has the
  coordinates of its move-to.
\<close>

definition contoursClosed :: "path_cmd list \<Rightarrow> bool" where
  "contoursClosed path =
     (case foldl contourStep (Some (None, None)) path of
        None \<Rightarrow> False
      | Some (start, cur) \<Rightarrow> start = cur)"

text \<open>
  The map of the specification: pixel coordinates are scaled by \<open>(1 / width, -1 / height)\<close>
  and moved so that the glyph fills the unit square.
\<close>

definition documentedMap :: "nat \<Rightarrow> nat \<Rightarrow> int \<Rightarrow> int \<Rightarrow> rat \<times> rat" where
  "documentedMap w h x y = (of_int x / of_nat w, 1 - of_int y / of_nat h)"

section \<open>Properties\<close>

subsection \<open>\<^verbatim>\<open>normalizeFontName\<close>\<close>

lemma replaceAllClass_Nil [simp]: "replaceAllClass cls r [] = []"
  by (simp add: replaceAllClass_def)

lemma replaceAllClass_Cons [simp]:
  "replaceAllClass cls r (c # s) = (if cls c then r else [c]) @ replaceAllClass cls r s"
  by (simp add: replaceAllClass_def)

lemma replaceAllClass_append [simp]:
  "replaceAllClass cls r (s @ t) = replaceAllClass cls r s @ replaceAllClass cls r t"
  by (simp add: replaceAllClass_def)

lemma hyphen_not_whiteSpace: "\<not> whiteSpace 0x2D"
  by (simp add: whiteSpace_def)

text \<open>
  C8 (as amended). \<^verbatim>\<open>normalizeFontName\<close> replaces every comma and every underscore by a
  hyphen-minus and removes every white-space code unit; every other code unit is kept, in
  order. Commas and underscores are replaced, not removed.
\<close>

theorem normalizeFontName_replaces_and_strips:
  "normalizeFontName name =
     filter (\<lambda>c. \<not> whiteSpace c) (map (\<lambda>c. if commaOrUnderscore c then 0x2D else c) name)"
  unfolding normalizeFontName_def
  by (induction name) (simp_all add: hyphen_not_whiteSpace)

text \<open>
  C8 as stated fails: on the three code units \<^verbatim>\<open>a,b\<close> the result is \<^verbatim>\<open>a-b\<close>, and the
  string with the comma removed is \<^verbatim>\<open>ab\<close>.
\<close>

theorem normalizeFontName_not_stripped:
  "normalizeFontName [0x61, 0x2C, 0x62] = [0x61, 0x2D, 0x62]
   \<and> stripped [0x61, 0x2C, 0x62] = [0x61, 0x62]
   \<and> normalizeFontName [0x61, 0x2C, 0x62] \<noteq> stripped [0x61, 0x2C, 0x62]"
  by (simp add: normalizeFontName_def stripped_def commaOrUnderscore_def whiteSpace_def)

subsection \<open>\<^verbatim>\<open>recoverGlyphName\<close>\<close>

lemma firstKeyWith_Some:
  "firstKeyWith m u keys = Some k \<Longrightarrow> k \<in> set keys \<and> map_of m k = Some u"
  by (induction keys) (auto split: if_splits)

lemma firstKeyWith_first:
  "firstKeyWith m u keys = Some k \<Longrightarrow>
     \<exists>pre post. keys = pre @ k # post \<and> (\<forall>k' \<in> set pre. map_of m k' \<noteq> Some u)"
proof (induction keys)
  case Nil
  then show ?case by simp
next
  case (Cons a keys)
  show ?case
  proof (cases "map_of m a = Some u")
    case True
    with Cons.prems have "a = k" by simp
    then have "a # keys = [] @ k # keys \<and> (\<forall>k' \<in> set []. map_of m k' \<noteq> Some u)" by simp
    then show ?thesis by blast
  next
    case False
    with Cons.prems have "firstKeyWith m u keys = Some k" by simp
    from Cons.IH [OF this] obtain pre post
      where "keys = pre @ k # post" "\<forall>k' \<in> set pre. map_of m k' \<noteq> Some u" by blast
    with False have "a # keys = (a # pre) @ k # post
        \<and> (\<forall>k' \<in> set (a # pre). map_of m k' \<noteq> Some u)" by simp
    then show ?thesis by blast
  qed
qed

text \<open>
  C10. \<^verbatim>\<open>recoverGlyphName\<close> returns its input, or else a key of the map whose value is the
  code point that \<^verbatim>\<open>getUnicodeForGlyph\<close> gave for the input; that code point is not
  \<open>-1\<close>, the input is not a key, and no key enumerated before the returned one has that
  value. So a result that differs from the input is always a key of the map.
\<close>

theorem recoverGlyphName_input_or_key:
  "recoverGlyphName gu name m = name
   \<or> (map_of m name = None \<and> gu name m \<noteq> -1
      \<and> map_of m (recoverGlyphName gu name m) = Some (gu name m)
      \<and> recoverGlyphName gu name m \<in> fst ` set m
      \<and> (\<exists>pre post. map fst m = pre @ recoverGlyphName gu name m # post
            \<and> (\<forall>k \<in> set pre. map_of m k \<noteq> Some (gu name m))))"
proof (cases "recoverGlyphName gu name m = name")
  case True
  then show ?thesis by simp
next
  case False
  then have absent: "map_of m name = None"
    by (auto simp: recoverGlyphName_def split: if_splits)
  with False have found: "gu name m \<noteq> -1"
    by (auto simp: recoverGlyphName_def Let_def)
  with False absent obtain k where
    k: "firstKeyWith m (gu name m) (map fst m) = Some k" "recoverGlyphName gu name m = k"
    by (auto simp: recoverGlyphName_def Let_def split: option.splits)
  from firstKeyWith_Some [OF k(1)] have "k \<in> fst ` set m" "map_of m k = Some (gu name m)"
    by auto
  moreover from firstKeyWith_first [OF k(1)] obtain pre post where
    "map fst m = pre @ k # post" "\<forall>k' \<in> set pre. map_of m k' \<noteq> Some (gu name m)"
    by blast
  ultimately show ?thesis
    using absent found unfolding k(2) by auto
qed

theorem recoverGlyphName_input_or_key_witness:
  "recoverGlyphName (\<lambda>n m. 65) ''uni0041'' [(''B'', 66), (''A'', 65), (''Alpha'', 65)] = ''A''
   \<and> map_of [(''B'', 66), (''A'', 65), (''Alpha'', 65)] ''A'' = Some (65::int)
   \<and> recoverGlyphName (\<lambda>n m. -1) ''foo'' [(''B'', 66), (''A'', 65)] = ''foo''"
proof -
  have "recoverGlyphName (\<lambda>n m. 65) ''uni0041'' [(''B'', 66), (''A'', 65), (''Alpha'', 65)]
        = ''A''"
    by (simp add: recoverGlyphName_def)
  moreover have "recoverGlyphName (\<lambda>n m. -1) ''foo'' [(''B'', 66), (''A'', 65)] = ''foo''"
    by (simp add: recoverGlyphName_def)
  ultimately show ?thesis
    using recoverGlyphName_input_or_key
      [of "\<lambda>n m. 65" "''uni0041''" "[(''B'', 66), (''A'', 65), (''Alpha'', 65)]"]
    by simp
qed

subsection \<open>\<^verbatim>\<open>type1FontGlyphMapping\<close>\<close>

lemma indexOfStr_range:
  "indexOfStr xs s k = -1 \<or> (k \<le> indexOfStr xs s k \<and> indexOfStr xs s k < k + int (length xs))"
  if "0 \<le> k"
  using that
proof (induction xs arbitrary: k)
  case Nil
  then show ?case by simp
next
  case (Cons x xs)
  from Cons.IH [of "k + 1"] Cons.prems show ?case by auto
qed

lemma indexOf_range:
  "indexOf xs v = -1 \<or> (0 \<le> indexOf xs v \<and> indexOf xs v < int (length xs))"
  using indexOfStr_range [of 0 xs] by (cases v) auto

lemma forIn_update_pointwise:
  "forIn obj (\<lambda>k v m. m(k \<mapsto> h v)) m c =
     (case map_of (rev obj) c of None \<Rightarrow> m c | Some v \<Rightarrow> Some (h v))"
  unfolding forIn_def
  by (induction obj arbitrary: m) (auto split: option.splits)

lemma map_of_rev_distinct:
  "distinct (map fst xs) \<Longrightarrow> map_of (rev xs) = map_of xs"
  by (induction xs) (auto simp: map_add_def fun_eq_iff split: option.splits dest: map_of_SomeD intro: rev_image_eqI)

lemma translateLoop_pointwise:
  "translateLoop g elemAt len k m c =
     (if k \<le> c \<and> c < len then translatedByName g len elemAt c else m c)"
proof (induction g elemAt len k m rule: translateLoop.induct)
  case (1 g elemAt len k m)
  show ?case
  proof (cases "k < len")
    case True
    define m' where
      "m' = m(k \<mapsto> Num (if indexOf g (elemAt k) \<ge> 0 then indexOf g (elemAt k) else 0))"
    have step: "translateLoop g elemAt len k m = translateLoop g elemAt len (k + 1) m'"
      by (subst translateLoop.simps) (simp add: True Let_def m'_def)
    have IH: "translateLoop g elemAt len (k + 1) m' c =
        (if k + 1 \<le> c \<and> c < len then translatedByName g len elemAt c else m' c)"
      unfolding m'_def by (rule "1.IH" [OF True refl])
    have here: "m' k = translatedByName g len elemAt k"
      using True indexOf_range [of g "elemAt k"]
      by (auto simp: m'_def translatedByName_def)
    have other: "c \<noteq> k \<Longrightarrow> m' c = m c"
      by (simp add: m'_def)
    show ?thesis
    proof (cases "c = k")
      case True
      with here IH step \<open>k < len\<close> show ?thesis by simp
    next
      case False
      with other IH step show ?thesis by auto
    qed
  next
    case False
    then show ?thesis
      by (subst translateLoop.simps) auto
  qed
qed

lemma differenceGlyphId_derived:
  "differenceGlyphId env g name = derivedFromDifference env g name"
  using indexOf_range [of g "Str name"]
    indexOf_range [of g "Str (recoverGlyphName (getUnicodeForGlyph env) name (getGlyphsUnicode env))"]
  by (auto simp: differenceGlyphId_def derivedFromDifference_def Let_def)

lemma differenceGlyphId_range:
  "g \<noteq> [] \<Longrightarrow> 0 \<le> differenceGlyphId env g name \<and> differenceGlyphId env g name < int (length g)"
  using indexOf_range [of g "Str name"]
    indexOf_range [of g "Str (recoverGlyphName (getUnicodeForGlyph env) name (getGlyphsUnicode env))"]
  by (auto simp: differenceGlyphId_def Let_def)

lemma translatedByName_valid:
  "g \<noteq> [] \<Longrightarrow> translatedByName g len tbl c = Some v \<Longrightarrow> validGlyphId g v"
  using indexOf_range [of g "tbl c"]
  by (auto simp: translatedByName_def split: if_splits)

lemma map_of_rev_key:
  "c \<in> fst ` set obj \<Longrightarrow> \<exists>v. map_of (rev obj) c = Some v \<and> (c, v) \<in> set obj"
proof -
  assume "c \<in> fst ` set obj"
  then have "c \<in> fst ` set (rev obj)" by simp
  then obtain v where "map_of (rev obj) c = Some v"
    by (metis map_of_eq_None_iff not_Some_eq)
  moreover from this have "(c, v) \<in> set obj"
    using map_of_SomeD by fastforce
  ultimately show ?thesis by blast
qed

lemma map_of_rev_not_key:
  "c \<notin> fst ` set obj \<Longrightarrow> map_of (rev obj) c = None"
  by (simp add: map_of_eq_None_iff)

lemma glyphIdAt_not_difference:
  "c \<notin> differenceKeys p \<Longrightarrow>
     glyphIdAt (type1FontGlyphMapping env p bie g) c = glyphIdAt (baseMapping env p bie g) c"
  by (auto simp: type1FontGlyphMapping_def glyphIdAt_def differenceKeys_def
      forIn_update_pointwise map_of_rev_not_key split: sum.splits option.splits)

lemma glyphIdAt_difference:
  assumes "differences p = Some ds" and "c \<in> fst ` set ds"
    and "type1FontGlyphMapping env p bie g = Inr m"
  shows "\<exists>name. (c, name) \<in> set ds \<and> map_of (rev ds) c = Some name
           \<and> m c = Some (Num (differenceGlyphId env g name))"
proof -
  from map_of_rev_key [OF assms(2)] obtain name
    where name: "map_of (rev ds) c = Some name" "(c, name) \<in> set ds" by blast
  from assms(1,3) obtain m0 where
    "m = forIn ds (\<lambda>charCode glyphName m.
            m(charCode \<mapsto> Num (differenceGlyphId env g glyphName))) m0"
    by (auto simp: type1FontGlyphMapping_def split: sum.splits)
  then have "m c = Some (Num (differenceGlyphId env g name))"
    using name(1) by (simp add: forIn_update_pointwise)
  with name show ?thesis by blast
qed

text \<open>
  C1 (as amended). When the glyph-name list is not empty, every entry of the returned map that
  a name lookup wrote is a glyph id in \<open>[0, len(glyphNames))\<close>: every entry when the base
  table is the built-in encoding of an internal font, a named encoding or the standard
  encoding, and the entry of every char code of \<^verbatim>\<open>differences\<close> also in the symbolic
  branch. The entries that the symbolic branch copies from the built-in encoding are not
  checked against the list.
\<close>

theorem glyph_ids_in_range:
  assumes "glyphIdAt (type1FontGlyphMapping env p bie g) c = Some v"
    and "g \<noteq> []"
    and "isInternalFont p \<or> truthyName (baseEncodingName p) \<or> \<not> isSymbolicFont p
         \<or> c \<in> differenceKeys p"
  shows "validGlyphId g v"
proof (cases "c \<in> differenceKeys p")
  case True
  then obtain ds where ds: "differences p = Some ds" "c \<in> fst ` set ds"
    by (auto simp: differenceKeys_def split: option.splits)
  from assms(1) obtain m where m: "type1FontGlyphMapping env p bie g = Inr m" "m c = Some v"
    by (auto simp: glyphIdAt_def split: sum.splits)
  from glyphIdAt_difference [OF ds m(1)] m(2) obtain name
    where "v = Num (differenceGlyphId env g name)" by auto
  with differenceGlyphId_range [OF assms(2)] show ?thesis by simp
next
  case False
  with assms(3) have br: "isInternalFont p \<or> truthyName (baseEncodingName p) \<or> \<not> isSymbolicFont p"
    by simp
  from assms(1) have "glyphIdAt (baseMapping env p bie g) c = Some v"
    unfolding glyphIdAt_not_difference [OF False] .
  with br have "\<exists>len tbl. translatedByName g len tbl c = Some v"
    by (auto simp: baseMapping_def glyphIdAt_def translateLoop_pointwise
        split: if_splits option.splits)
  with translatedByName_valid [OF assms(2)] show ?thesis by blast
qed


theorem glyph_ids_in_range_witness:
  "glyphIdAt (type1FontGlyphMapping exampleEnv
      \<lparr>flags = 4, isInternalFont = False, baseEncodingName = None,
       differences = Some [(1, ''uni0042'')]\<rparr>
      \<lparr>arrayLength = None, entries = [(1, Num 7)]\<rparr>
      [''.notdef'', ''A'', ''B'']) 1 = Some (Num 2)
   \<and> validGlyphId [''.notdef'', ''A'', ''B''] (Num 2)"
proof -
  have v: "glyphIdAt (type1FontGlyphMapping exampleEnv
      \<lparr>flags = 4, isInternalFont = False, baseEncodingName = None,
       differences = Some [(1, ''uni0042'')]\<rparr>
      \<lparr>arrayLength = None, entries = [(1, Num 7)]\<rparr>
      [''.notdef'', ''A'', ''B'']) 1 = Some (Num 2)"
    by (simp add: type1FontGlyphMapping_def baseMapping_def forIn_def glyphIdAt_def
        isSymbolicFont_def FontFlags_Symbolic_def differenceGlyphId_def exampleEnv_def
        recoverGlyphName_def)
  have k: "isInternalFont \<lparr>flags = 4, isInternalFont = False, baseEncodingName = None,
       differences = Some [(1, ''uni0042'')]\<rparr>
     \<or> truthyName (baseEncodingName \<lparr>flags = 4, isInternalFont = False, baseEncodingName = None,
       differences = Some [(1, ''uni0042'')]\<rparr>)
     \<or> \<not> isSymbolicFont \<lparr>flags = 4, isInternalFont = False, baseEncodingName = None,
       differences = Some [(1, ''uni0042'')]\<rparr>
     \<or> (1::nat) \<in> differenceKeys \<lparr>flags = 4, isInternalFont = False, baseEncodingName = None,
       differences = Some [(1, ''uni0042'')]\<rparr>"
    by (simp add: differenceKeys_def)
  have g: "[''.notdef'', ''A'', ''B''] \<noteq> []" by simp
  show ?thesis
    using v glyph_ids_in_range [OF v g k] by simp
qed


text \<open>
  C1 as stated fails in the symbolic branch, which copies the value 5 of the built-in encoding
  into a map for a font with one glyph, and for an empty glyph-name list, where the
  placeholder id 0 is not below the length 0.
\<close>

theorem glyph_ids_out_of_range:
  "glyphIdAt (type1FontGlyphMapping exampleEnv
      \<lparr>flags = 4, isInternalFont = False, baseEncodingName = None, differences = None\<rparr>
      \<lparr>arrayLength = None, entries = [(0, Num 5)]\<rparr>
      [''.notdef'']) 0 = Some (Num 5)
   \<and> \<not> validGlyphId [''.notdef''] (Num 5)
   \<and> glyphIdAt (type1FontGlyphMapping exampleEnv
      \<lparr>flags = 0, isInternalFont = True, baseEncodingName = None, differences = None\<rparr>
      \<lparr>arrayLength = Some 1, entries = [(0, Str ''A'')]\<rparr>
      []) 0 = Some (Num 0)
   \<and> \<not> validGlyphId [] (Num 0)"
  by (simp add: type1FontGlyphMapping_def baseMapping_def forIn_def glyphIdAt_def
      isSymbolicFont_def FontFlags_Symbolic_def translateLoop_pointwise translatedByName_def
      getProp_def)


text \<open>
  C2. For a char code of \<^verbatim>\<open>differences\<close>, the entry of the returned map is the id derived
  from the difference entry: the index of its glyph name, else the index of the recovered
  name, else 0. The base pass has no influence on it: the statement holds for every
  built-in encoding, every flag and every base encoding.
\<close>

theorem difference_overrides_win:
  assumes "differences p = Some ds" and "distinct (map fst ds)" and "(c, name) \<in> set ds"
    and "type1FontGlyphMapping env p bie g = Inr m"
  shows "m c = Some (Num (derivedFromDifference env g name))"
proof -
  from assms(3) have "c \<in> fst ` set ds" by force
  from glyphIdAt_difference [OF assms(1) this assms(4)] obtain name'
    where n: "(c, name') \<in> set ds" "m c = Some (Num (differenceGlyphId env g name'))"
    by blast
  from assms(2,3) n(1) have "name' = name"
    by (meson eq_key_imp_eq_value)
  with n(2) show ?thesis
    by (simp add: differenceGlyphId_derived)
qed

theorem difference_overrides_win_witness:
  "glyphIdAt (type1FontGlyphMapping exampleEnv
      \<lparr>flags = 0, isInternalFont = False, baseEncodingName = None,
       differences = Some [(1, ''uni0042''), (2, ''foo'')]\<rparr>
      \<lparr>arrayLength = None, entries = []\<rparr>
      [''.notdef'', ''A'', ''B'']) 1 = Some (Num 2)
   \<and> derivedFromDifference exampleEnv [''.notdef'', ''A'', ''B''] ''uni0042'' = 2
   \<and> glyphIdAt (baseMapping exampleEnv
      \<lparr>flags = 0, isInternalFont = False, baseEncodingName = None,
       differences = Some [(1, ''uni0042''), (2, ''foo'')]\<rparr>
      \<lparr>arrayLength = None, entries = []\<rparr>
      [''.notdef'', ''A'', ''B'']) 1 = Some (Num 1)"
proof -
  obtain m where r: "type1FontGlyphMapping exampleEnv
      \<lparr>flags = 0, isInternalFont = False, baseEncodingName = None,
       differences = Some [(1, ''uni0042''), (2, ''foo'')]\<rparr>
      \<lparr>arrayLength = None, entries = []\<rparr>
      [''.notdef'', ''A'', ''B''] = Inr m"
    by (simp add: type1FontGlyphMapping_def baseMapping_def isSymbolicFont_def
        FontFlags_Symbolic_def)
  have d: "differences \<lparr>flags = 0, isInternalFont = False, baseEncodingName = None,
       differences = Some [(1, ''uni0042''), (2, ''foo'')]\<rparr>
       = Some [(1, ''uni0042''), (2, ''foo'')]"
    by simp
  have k: "distinct (map fst [(1::nat, ''uni0042''), (2, ''foo'')])" by simp
  have i: "(1::nat, ''uni0042'') \<in> set [(1, ''uni0042''), (2, ''foo'')]" by simp
  have b: "glyphIdAt (baseMapping exampleEnv
      \<lparr>flags = 0, isInternalFont = False, baseEncodingName = None,
       differences = Some [(1, ''uni0042''), (2, ''foo'')]\<rparr>
      \<lparr>arrayLength = None, entries = []\<rparr>
      [''.notdef'', ''A'', ''B'']) 1 = Some (Num 1)"
    by (simp add: baseMapping_def glyphIdAt_def isSymbolicFont_def FontFlags_Symbolic_def
        translateLoop_pointwise translatedByName_def exampleEnv_def arrayAt_def)
  have v: "derivedFromDifference exampleEnv [''.notdef'', ''A'', ''B''] ''uni0042'' = 2"
    by (simp add: derivedFromDifference_def exampleEnv_def recoverGlyphName_def)
  have "m 1 = Some (Num (derivedFromDifference exampleEnv [''.notdef'', ''A'', ''B'']
      ''uni0042''))"
    using difference_overrides_win [OF d k i r] .
  then show ?thesis
    using b v r by (simp add: glyphIdAt_def)
qed

text \<open>
  C3. The base table is chosen by precedence, and a char code that \<^verbatim>\<open>differences\<close> does
  not override carries the entry of that table alone: for an internal font the built-in
  encoding translated by name (a miss gives 0); else, when \<^verbatim>\<open>baseEncodingName\<close> is
  present (JavaScript reads that as a non-empty string), the table that \<^verbatim>\<open>getEncoding\<close>
  returns, translated the same way; else, when the Symbolic flag is set, the built-in
  encoding's own value, unchanged; else the standard encoding translated by name.
\<close>

theorem type1FontGlyphMapping_base_precedence:
  assumes "c \<notin> differenceKeys p" and "distinct (map fst (entries bie))"
  shows "(isInternalFont p \<longrightarrow>
            glyphIdAt (type1FontGlyphMapping env p bie g) c =
              translatedByName g (case arrayLength bie of None \<Rightarrow> 0 | Some n \<Rightarrow> n)
                (getProp (entries bie)) c)
       \<and> (\<not> isInternalFont p \<and> baseEncodingName p = Some name \<and> name \<noteq> []
            \<and> getEncoding env name = Some tbl \<longrightarrow>
            glyphIdAt (type1FontGlyphMapping env p bie g) c =
              translatedByName g (length tbl) (arrayAt tbl) c)
       \<and> (\<not> isInternalFont p \<and> \<not> truthyName (baseEncodingName p) \<and> isSymbolicFont p \<longrightarrow>
            glyphIdAt (type1FontGlyphMapping env p bie g) c = map_of (entries bie) c)
       \<and> (\<not> isInternalFont p \<and> \<not> truthyName (baseEncodingName p) \<and> \<not> isSymbolicFont p \<longrightarrow>
            glyphIdAt (type1FontGlyphMapping env p bie g) c =
              translatedByName g (length (StandardEncoding env))
                (arrayAt (StandardEncoding env)) c)"
proof -
  have sym: "forIn (entries bie) (\<lambda>charCode v m. m(charCode \<mapsto> v)) Map.empty c
      = map_of (entries bie) c"
    using forIn_update_pointwise [of "entries bie" "\<lambda>v. v" Map.empty c]
      map_of_rev_distinct [OF assms(2)]
    by (simp split: option.splits)
  show ?thesis
    unfolding glyphIdAt_not_difference [OF assms(1)]
    by (auto simp: baseMapping_def glyphIdAt_def translateLoop_pointwise sym
        translatedByName_def)
qed


theorem type1FontGlyphMapping_base_precedence_witness:
  "glyphIdAt (type1FontGlyphMapping exampleEnv
      \<lparr>flags = 4, isInternalFont = True, baseEncodingName = Some ''WinAnsiEncoding'',
       differences = Some [(1, ''A'')]\<rparr>
      \<lparr>arrayLength = Some 2, entries = [(0, Str ''B''), (1, Str ''B'')]\<rparr>
      [''.notdef'', ''A'', ''B'']) 0 = Some (Num 2)
   \<and> glyphIdAt (type1FontGlyphMapping exampleEnv
      \<lparr>flags = 4, isInternalFont = False, baseEncodingName = Some ''WinAnsiEncoding'',
       differences = None\<rparr>
      \<lparr>arrayLength = None, entries = [(1, Num 7)]\<rparr>
      [''.notdef'', ''A'', ''B'']) 1 = Some (Num 1)
   \<and> glyphIdAt (type1FontGlyphMapping exampleEnv
      \<lparr>flags = 4, isInternalFont = False, baseEncodingName = None, differences = None\<rparr>
      \<lparr>arrayLength = None, entries = [(1, Num 7)]\<rparr>
      [''.notdef'', ''A'', ''B'']) 1 = Some (Num 7)
   \<and> glyphIdAt (type1FontGlyphMapping exampleEnv
      \<lparr>flags = 0, isInternalFont = False, baseEncodingName = Some [], differences = None\<rparr>
      \<lparr>arrayLength = None, entries = [(1, Num 7)]\<rparr>
      [''.notdef'', ''A'', ''B'']) 2 = Some (Num 2)"
proof -
  have a: "(0::nat) \<notin> differenceKeys
      \<lparr>flags = 4, isInternalFont = True, baseEncodingName = Some ''WinAnsiEncoding'',
       differences = Some [(1, ''A'')]\<rparr>"
    by (simp add: differenceKeys_def)
  have b: "(1::nat) \<notin> differenceKeys
      \<lparr>flags = 4, isInternalFont = False, baseEncodingName = Some ''WinAnsiEncoding'',
       differences = None\<rparr>"
    by (simp add: differenceKeys_def)
  have c: "(1::nat) \<notin> differenceKeys
      \<lparr>flags = 4, isInternalFont = False, baseEncodingName = None, differences = None\<rparr>"
    by (simp add: differenceKeys_def)
  have d: "(2::nat) \<notin> differenceKeys
      \<lparr>flags = 0, isInternalFont = False, baseEncodingName = Some [], differences = None\<rparr>"
    by (simp add: differenceKeys_def)
  have e: "distinct (map fst (entries \<lparr>arrayLength = Some 2,
      entries = [(0, Str ''B''), (1, Str ''B'')]\<rparr>))"
    by simp
  have f: "distinct (map fst (entries \<lparr>arrayLength = None, entries = [(1, Num 7)]\<rparr>))"
    by simp
  show ?thesis
    using type1FontGlyphMapping_base_precedence [OF a e, of exampleEnv "[''.notdef'', ''A'', ''B'']"]
      type1FontGlyphMapping_base_precedence [OF b f, of exampleEnv "[''.notdef'', ''A'', ''B'']"
        "''WinAnsiEncoding''" "[''space'', ''A'']"]
      type1FontGlyphMapping_base_precedence [OF c f, of exampleEnv "[''.notdef'', ''A'', ''B'']"]
      type1FontGlyphMapping_base_precedence [OF d f, of exampleEnv "[''.notdef'', ''A'', ''B'']"]
    by (simp add: exampleEnv_def translatedByName_def getProp_def arrayAt_def
        isSymbolicFont_def FontFlags_Symbolic_def)
qed

subsection \<open>\<^verbatim>\<open>compileType3Glyph\<close>: decoding the mask\<close>

lemma and_not_7: "(k::int) AND NOT 7 = k div 8 * 8"
proof -
  have "(7::int) = mask 3" by (simp add: mask_eq_exp_minus_1)
  then have "k AND NOT 7 = k AND NOT (mask 3)" by simp
  also have "\<dots> = push_bit 3 (drop_bit 3 k)"
    by (rule bit_eqI) (auto simp: bit_simps)
  also have "\<dots> = k div 8 * 8"
    by (simp add: push_bit_eq_mult drop_bit_eq_div)
  finally show ?thesis .
qed

lemma lineSizeOf_eq: "lineSizeOf w = (w + 7) div 8 * 8"
proof -
  have "int (lineSizeOf w) = (int w + 7) div 8 * 8"
    unfolding lineSizeOf_def and_not_7 by simp
  also have "\<dots> = int ((w + 7) div 8 * 8)"
    by (simp add: zdiv_int)
  finally show ?thesis by linarith
qed

lemma and_bit: "(elem AND (2::nat) ^ k \<noteq> 0) = bit elem k"
  by (simp add: and_exp_eq_0_iff_not_bit)

lemma length_wr [simp]: "length (wr xs i v) = length xs"
  by (simp add: wr_def)

lemma nth_wr: "k < length xs \<Longrightarrow> wr xs i v ! k = (if i = int k then v else xs ! k)"
  by (auto simp: wr_def)

lemma unpackMask_byte:
  "unpackMask elem 128 (dat, pos) =
    (wr (wr (wr (wr (wr (wr (wr (wr dat (int pos) (if bit elem 7 then 0 else 255))
       (int pos + 1) (if bit elem 6 then 0 else 255))
       (int pos + 2) (if bit elem 5 then 0 else 255))
       (int pos + 3) (if bit elem 4 then 0 else 255))
       (int pos + 4) (if bit elem 3 then 0 else 255))
       (int pos + 5) (if bit elem 2 then 0 else 255))
       (int pos + 6) (if bit elem 1 then 0 else 255))
       (int pos + 7) (if bit elem 0 then 0 else 255), pos + 8)"
proof -
  have b: "elem AND 128 \<noteq> 0 \<longleftrightarrow> bit elem 7" "elem AND 64 \<noteq> 0 \<longleftrightarrow> bit elem 6"
    "elem AND 32 \<noteq> 0 \<longleftrightarrow> bit elem 5" "elem AND 16 \<noteq> 0 \<longleftrightarrow> bit elem 4"
    "elem AND 8 \<noteq> 0 \<longleftrightarrow> bit elem 3" "elem AND 4 \<noteq> 0 \<longleftrightarrow> bit elem 2"
    "elem AND 2 \<noteq> 0 \<longleftrightarrow> bit elem 1" "elem AND 1 \<noteq> 0 \<longleftrightarrow> bit elem 0"
    using and_bit [of elem 7] and_bit [of elem 6] and_bit [of elem 5] and_bit [of elem 4]
      and_bit [of elem 3] and_bit [of elem 2] and_bit [of elem 1] and_bit [of elem 0]
    by simp_all
  have m: "drop_bit 1 (128::nat) = 64" "drop_bit 1 (64::nat) = 32" "drop_bit 1 (32::nat) = 16"
    "drop_bit 1 (16::nat) = 8" "drop_bit 1 (8::nat) = 4" "drop_bit 1 (4::nat) = 2"
    "drop_bit 1 (2::nat) = 1" "drop_bit 1 (1::nat) = 0"
    by (simp_all add: drop_bit_eq_div)
  show ?thesis
    apply (subst unpackMask.simps, simp only: m b)
    apply (subst unpackMask.simps, simp only: m b)
    apply (subst unpackMask.simps, simp only: m b)
    apply (subst unpackMask.simps, simp only: m b)
    apply (subst unpackMask.simps, simp only: m b)
    apply (subst unpackMask.simps, simp only: m b)
    apply (subst unpackMask.simps, simp only: m b)
    apply (subst unpackMask.simps, simp only: m b)
    apply (subst unpackMask.simps)
    apply (simp add: algebra_simps)
    done
qed

text \<open>The byte that one pixel of an unpacked mask holds: 0 for a set bit, 255 for a clear one.\<close>

lemma unpackMask_length: "length (fst (unpackMask elem 128 (dat, pos))) = length dat"
  by (simp add: unpackMask_byte)

lemma unpackMask_pos: "snd (unpackMask elem 128 (dat, pos)) = pos + 8"
  by (simp add: unpackMask_byte)

lemma nth_wr8:
  assumes "i < length dat"
  shows "wr (wr (wr (wr (wr (wr (wr (wr dat (int pos) v0) (int pos + 1) v1) (int pos + 2) v2)
      (int pos + 3) v3) (int pos + 4) v4) (int pos + 5) v5) (int pos + 6) v6) (int pos + 7) v7 ! i =
    (if pos \<le> i \<and> i < pos + 8 then [v0, v1, v2, v3, v4, v5, v6, v7] ! (i - pos) else dat ! i)"
proof (cases "pos \<le> i \<and> i < pos + 8")
  case False
  then show ?thesis
    using assms by (auto simp: nth_wr)
next
  case True
  then obtain k where k: "i = pos + k" "k < 8"
    by (metis le_Suc_ex nat_add_left_cancel_less)
  then consider "k = 0" | "k = 1" | "k = 2" | "k = 3" | "k = 4" | "k = 5" | "k = 6" | "k = 7"
    by linarith
  then show ?thesis
    using assms k(1) by cases (simp_all add: nth_wr)
qed

lemma nth_byte_bits:
  "k < 8 \<Longrightarrow> [f 7, f 6, f 5, f 4, f 3, f 2, f 1, f (0::nat)] ! k = f (7 - k)"
proof -
  assume "k < 8"
  then consider "k = 0" | "k = 1" | "k = 2" | "k = 3" | "k = 4" | "k = 5" | "k = 6" | "k = 7"
    by linarith
  then show ?thesis by cases simp_all
qed

lemma unpackMask_nth:
  assumes "i < length dat"
  shows "fst (unpackMask elem 128 (dat, pos)) ! i =
    (if pos \<le> i \<and> i < pos + 8 then (if bit elem (7 - (i - pos)) then 0 else 255)
     else dat ! i)"
proof -
  define f :: "nat \<Rightarrow> nat" where "f k = (if bit elem k then 0 else 255)" for k
  have "fst (unpackMask elem 128 (dat, pos)) ! i =
    (if pos \<le> i \<and> i < pos + 8
     then [f 7, f 6, f 5, f 4, f 3, f 2, f 1, f 0] ! (i - pos) else dat ! i)"
    unfolding unpackMask_byte fst_conv f_def by (rule nth_wr8 [OF assms])
  moreover have "[f 7, f 6, f 5, f 4, f 3, f 2, f 1, f 0] ! (i - pos) = f (7 - (i - pos))"
    if "pos \<le> i \<and> i < pos + 8"
  proof -
    from that have "i - pos < 8" by linarith
    then show ?thesis by (rule nth_byte_bits)
  qed
  ultimately show ?thesis
    by (simp add: f_def)
qed

lemma pixelByte_Cons:
  "pixelByte (e # img) k = (if k < 8 then (if bit e (7 - k) then 0 else 255)
     else pixelByte img (k - 8))"
proof (cases "k < 8")
  case True
  then show ?thesis by (simp add: pixelByte_def)
next
  case False
  then have "k div 8 = Suc ((k - 8) div 8)" "k mod 8 = (k - 8) mod 8"
    by (simp_all add: le_div_geq le_mod_geq)
  with False show ?thesis by (simp add: pixelByte_def)
qed

lemma unpack_fold:
  "i < length dat \<Longrightarrow>
   fold (\<lambda>elem st. unpackMask (unat elem) 128 st) img (dat, pos) = (dat', pos') \<Longrightarrow>
   dat' ! i =
     (if pos \<le> i \<and> i < pos + 8 * length img then pixelByte img (i - pos) else dat ! i)"
proof (induction img arbitrary: dat pos)
  case Nil
  then show ?case by auto
next
  case (Cons e img)
  obtain d1 where d1: "unpackMask (unat e) 128 (dat, pos) = (d1, pos + 8)"
    by (simp add: unpackMask_byte)
  have l1: "length d1 = length dat"
    using unpackMask_length [of "unat e" dat pos] d1 by simp
  have n1: "d1 ! i = (if pos \<le> i \<and> i < pos + 8
      then (if bit e (7 - (i - pos)) then 0 else 255) else dat ! i)"
    using unpackMask_nth [OF Cons.prems(1), of "unat e" pos] d1
    by (simp add: bit_unsigned_iff)
  from Cons.prems(2) d1
  have f: "fold (\<lambda>elem st. unpackMask (unat elem) 128 st) img (d1, pos + 8) = (dat', pos')"
    by simp
  from Cons.prems(1) l1 have "i < length d1" by simp
  from Cons.IH [OF this f]
  have IH: "dat' ! i = (if pos + 8 \<le> i \<and> i < pos + 8 + 8 * length img
      then pixelByte img (i - (pos + 8)) else d1 ! i)" .
  show ?case
  proof (cases "pos + 8 \<le> i")
    case True
    then have "\<not> i - pos < 8" by linarith
    then have "pixelByte (e # img) (i - pos) = pixelByte img (i - pos - 8)"
      by (simp only: pixelByte_Cons if_False)
    then have a: "pixelByte (e # img) (i - pos) = pixelByte img (i - (pos + 8))"
      by (simp only: diff_diff_left)
    from True have b: "d1 ! i = dat ! i"
      unfolding n1 by simp
    from True have c: "(pos \<le> i \<and> i < pos + 8 * length (e # img)) =
        (pos + 8 \<le> i \<and> i < pos + 8 + 8 * length img)"
      by auto
    show ?thesis
      unfolding IH a b c by (rule refl)
  next
    case False
    show ?thesis
    proof (cases "pos \<le> i")
      case True
      with False have "i - pos < 8" by linarith
      then have "pixelByte (e # img) (i - pos) = (if bit e (7 - (i - pos)) then 0 else 255)"
        by (simp only: pixelByte_Cons if_True)
      moreover from False have "i < pos + 8" "\<not> (pos + 8 \<le> i \<and> i < pos + 8 + 8 * length img)"
        by linarith+
      with True have "dat' ! i = (if bit e (7 - (i - pos)) then 0 else 255)"
        using IH n1 by (simp only: if_True if_False simp_thms)
      moreover from True False have "pos \<le> i \<and> i < pos + 8 * length (e # img)"
        by simp
      ultimately show ?thesis by (simp only: if_True simp_thms)
    next
      case True': False
      with False IH n1 show ?thesis by simp
    qed
  qed
qed

lemma unpack_fold_length:
  "length (fst (fold (\<lambda>elem st. unpackMask (unat elem) 128 st) img (dat, pos))) = length dat"
proof (induction img arbitrary: dat pos)
  case Nil
  then show ?case by simp
next
  case (Cons e img)
  obtain d1 where d1: "unpackMask (unat e) 128 (dat, pos) = (d1, pos + 8)"
    by (simp add: unpackMask_byte)
  have "length d1 = length dat"
    using unpackMask_length [of "unat e" dat pos] d1 by simp
  with Cons.IH [of d1 "pos + 8"] d1 show ?case by simp
qed

lemma length_unpack: "length (unpack img n) = n"
  by (simp add: unpack_def unpack_fold_length)

lemma unpack_nth:
  assumes "i < n"
  shows "unpack img n ! i = (if i < 8 * length img then pixelByte img i else 0)"
proof -
  obtain d p where
    f: "fold (\<lambda>elem st. unpackMask (unat elem) 128 st) img (replicate n 0, 0) = (d, p)"
    by (cases "fold (\<lambda>elem st. unpackMask (unat elem) 128 st) img (replicate n 0, 0)") blast
  from assms have "i < length (replicate n (0::nat))" by simp
  from unpack_fold [OF this f] assms show ?thesis
    by (simp add: unpack_def f)
qed

text \<open>
  C4 (as amended). The decoder expands every row of a packed bitmap of consistent length into
  one byte per pixel, rows padded to a multiple of eight: the byte of pixel \<open>(x, y)\<close> is 0
  when its bit (most significant bit first, in byte \<open>x div 8\<close> of row \<open>y\<close>) is set, and 255
  when the bit is clear.
\<close>

theorem unpack_pixel:
  assumes "x < width g" and "y < height g"
    and "length (data g) = lineSizeOf (width g) div 8 * height g"
  shows "length (unpack (data g) (lineSizeOf (width g) * height g))
           = lineSizeOf (width g) * height g
       \<and> unpack (data g) (lineSizeOf (width g) * height g) ! (y * lineSizeOf (width g) + x) =
           (if bit (data g ! (y * (lineSizeOf (width g) div 8) + x div 8)) (7 - x mod 8)
            then 0 else 255)"
proof -
  define m where "m = (width g + 7) div 8"
  have L: "lineSizeOf (width g) = 8 * m"
    by (simp add: lineSizeOf_eq m_def)
  have xm: "x < 8 * m"
    using assms(1) unfolding m_def by linarith
  have "y * (8 * m) + x < y * (8 * m) + 8 * m"
    using xm by simp
  also have "\<dots> = Suc y * (8 * m)" by simp
  also have "\<dots> \<le> height g * (8 * m)"
    using assms(2) by (intro mult_le_mono1) simp
  finally have i: "y * (8 * m) + x < 8 * m * height g"
    by (simp add: mult.commute)
  have len: "8 * length (data g) = 8 * m * height g"
    using assms(3) L by simp
  have e: "y * (8 * m) + x = x + y * m * 8"
    by simp
  have d: "(y * (8 * m) + x) div 8 = y * m + x div 8"
    unfolding e by simp
  have r: "(y * (8 * m) + x) mod 8 = x mod 8"
    unfolding e by simp
  have "unpack (data g) (8 * m * height g) ! (y * (8 * m) + x) =
      pixelByte (data g) (y * (8 * m) + x)"
    using unpack_nth [OF i, of "data g"] i len by simp
  also have "\<dots> = (if bit (data g ! (y * m + x div 8)) (7 - x mod 8) then 0 else 255)"
    unfolding pixelByte_def d r by (rule refl)
  finally show ?thesis
    by (simp add: L length_unpack)
qed

theorem unpack_pixel_witness:
  "unpack [0x40, 0x80] (lineSizeOf 2 * 2) ! (0 * lineSizeOf 2 + 1) = 0
   \<and> bit ([0x40, 0x80 :: 8 word] ! (0 * (lineSizeOf 2 div 8) + 1 div 8)) (7 - 1 mod 8)
   \<and> unpack [0x40, 0x80] (lineSizeOf 2 * 2) ! (1 * lineSizeOf 2 + 1) = 255
   \<and> \<not> bit ([0x40, 0x80 :: 8 word] ! (1 * (lineSizeOf 2 div 8) + 1 div 8)) (7 - 1 mod 8)"
proof -
  have w: "(1::nat) < width \<lparr>data = [0x40, 0x80], width = 2, height = 2\<rparr>" by simp
  have h0: "(0::nat) < height \<lparr>data = [0x40, 0x80], width = 2, height = 2\<rparr>" by simp
  have h1: "(1::nat) < height \<lparr>data = [0x40, 0x80], width = 2, height = 2\<rparr>" by simp
  have L: "lineSizeOf 2 = 8"
    by (simp add: lineSizeOf_eq)
  have l: "length (data \<lparr>data = [0x40, 0x80], width = 2, height = 2\<rparr>) =
      lineSizeOf (width \<lparr>data = [0x40, 0x80], width = 2, height = 2\<rparr>) div 8
        * height \<lparr>data = [0x40, 0x80], width = 2, height = 2\<rparr>"
    by (simp add: L)
  have b: "bit (0x40 :: 8 word) 6" "\<not> bit (0x80 :: 8 word) 6"
    by code_simp+
  show ?thesis
    using unpack_pixel [OF w h0 l] unpack_pixel [OF w h1 l] b
    by (simp add: L)
qed

text \<open>
  C4 as stated fails: the byte 0x80 has its first bit set, and the decoder writes 0 for that
  pixel and 255 for the seven clear bits after it.
\<close>

theorem unpack_set_bit_gives_zero:
  "bit (0x80 :: 8 word) 7 \<and> unpack [0x80] (lineSizeOf 1 * 1) ! 0 = 0
   \<and> \<not> bit (0x80 :: 8 word) 6 \<and> unpack [0x80] (lineSizeOf 1 * 1) ! 1 = 255"
  by code_simp

subsection \<open>\<^verbatim>\<open>compileType3Glyph\<close>: the single pixel\<close>

lemma applyMatrix_glyphMatrix:
  "0 < h \<Longrightarrow> applyMatrix (glyphMatrix w h) x y = documentedMap w h x y"
  by (simp add: applyMatrix_def glyphMatrix_def scaleSelf_def translateSelf_def
      documentedMap_def)

text \<open>
  C7 (as amended). For the 1\<times>1 bitmap whose only pixel has its bit clear (the byte 0x00),
  \<^verbatim>\<open>compileType3Glyph\<close> returns exactly one contour: a move-to at the pixel corner
  \<open>(0, 0)\<close> and four line-tos through the corners \<open>(0, 1)\<close>, \<open>(1, 1)\<close>, \<open>(1, 0)\<close> and back
  to \<open>(0, 0)\<close>, each mapped by \<open>(x, y) \<mapsto> (x / width, 1 - y / height)\<close>, with the box
  \<open>[0, 0, 1, 1]\<close>.
\<close>

theorem compileType3Glyph_single_pixel:
  "compileType3Glyph \<lparr>data = [0x00], width = 1, height = 1\<rparr> =
     Some (Outline
       [(moveTo, documentedMap 1 1 0 0), (lineTo, documentedMap 1 1 0 1),
        (lineTo, documentedMap 1 1 1 1), (lineTo, documentedMap 1 1 1 0),
        (lineTo, documentedMap 1 1 0 0)]
       (0, 0, 1, 1))
   \<and> documentedMap 1 1 0 0 = (0, 1) \<and> documentedMap 1 1 0 1 = (0, 0)
   \<and> documentedMap 1 1 1 1 = (1, 0) \<and> documentedMap 1 1 1 0 = (1, 1)"
  by code_simp

text \<open>
  C7 as stated fails: the 1\<times>1 bitmap with its one bit set (the byte 0x80) compiles to an
  outline with no path command at all.
\<close>

theorem compileType3Glyph_set_bit_empty:
  "compileType3Glyph \<lparr>data = [0x80], width = 1, height = 1\<rparr> = Some (Outline [] (0, 0, 1, 1))"
  by code_simp

subsection \<open>\<^verbatim>\<open>compileType3Glyph\<close>: the null result\<close>

lemma borderLoop_count:
  "borderLoop dat w j0 a b j pos (points, count) = ((points', count'), pos', j')
   \<Longrightarrow> count \<le> count'"
proof (induction dat w j0 a b j pos "(points, count)" arbitrary: points count
    rule: borderLoop.induct)
  case (1 dat w j0 a b j pos points count)
  show ?case
  proof (cases "j < w")
    case True
    show ?thesis
    proof (cases "rd dat pos \<noteq> rd dat (pos + 1)")
      case d: True
      from "1.prems" True d have
        "borderLoop dat w j0 a b (j + 1) (pos + 1)
           (wr points (j0 + j) (if truthy (rd dat pos) then a else b), count + 1)
         = ((points', count'), pos', j')"
        by (subst (asm) borderLoop.simps) simp
      from "1.hyps" [OF True _ this] d have "count + 1 \<le> count'" by simp
      then show ?thesis by simp
    next
      case d: False
      from "1.prems" True d have
        "borderLoop dat w j0 a b (j + 1) (pos + 1) (points, count) = ((points', count'), pos', j')"
        by (subst (asm) borderLoop.simps) simp
      from "1.hyps" [OF True _ this] d show ?thesis by simp
    qed
  next
    case False
    with "1.prems" show ?thesis
      by (subst (asm) borderLoop.simps) simp
  qed
qed

lemma innerLoop_count:
  "innerLoop dat w lineSize j0 j pos nsum (points, count) = ((points', count'), pos', j')
   \<Longrightarrow> count \<le> count'"
proof (induction dat w lineSize j0 j pos nsum "(points, count)" arbitrary: points count
    rule: innerLoop.induct)
  case (1 dat w lineSize j0 j pos nsum points count)
  show ?case
  proof (cases "j < w")
    case True
    define s where "s = drop_bit 2 nsum
                  + (if truthy (rd dat (pos + 1)) then 4 else 0)
                  + (if truthy (rd dat (pos - lineSize + 1)) then 8 else 0)"
    define st where "st = (case rd POINT_TYPES (int s) of
                None \<Rightarrow> (points, count)
              | Some t \<Rightarrow> if t \<noteq> 0 then (wr points (j0 + j) t, count + 1) else (points, count))"
    have c: "count \<le> snd st"
      by (simp add: st_def split: option.splits)
    from "1.prems" True have
      "innerLoop dat w lineSize j0 (j + 1) (pos + 1) s (fst st, snd st)
         = ((points', count'), pos', j')"
      by (subst (asm) innerLoop.simps) (simp add: s_def st_def Let_def)
    moreover have "(case rd POINT_TYPES (int s) of
                None \<Rightarrow> (points, count)
              | Some t \<Rightarrow> if t \<noteq> 0 then (wr points (j0 + j) t, count + 1) else (points, count))
          = (fst st, snd st)"
      by (simp add: st_def)
    ultimately have "snd st \<le> count'"
      using "1.hyps" [OF True s_def [symmetric, THEN sym]] by blast
    with c show ?thesis by simp
  next
    case False
    with "1.prems" show ?thesis
      by (subst (asm) innerLoop.simps) simp
  qed
qed

lemma firstRow_count: "snd st \<le> snd (firstRow dat w st)"
proof -
  obtain points count where st: "st = (points, count)" by (cases st)
  define st1 where
    "st1 = (if rd dat 0 \<noteq> Some 0 then (wr points 0 1, count + 1) else (points, count))"
  obtain p2 c2 pos j where l: "borderLoop dat w 0 2 1 1 0 (fst st1, snd st1) = ((p2, c2), pos, j)"
    by (metis prod.collapse)
  have "count \<le> snd st1" by (simp add: st1_def)
  also have "\<dots> \<le> c2" by (rule borderLoop_count [OF l])
  also have "\<dots> \<le> snd (firstRow dat w st)"
    using l by (simp add: firstRow_def st st1_def [symmetric])
  finally show ?thesis by (simp add: st)
qed

lemma middleRow_count: "snd st \<le> snd (middleRow dat w lineSize width1 i st)"
proof -
  obtain points count where st: "st = (points, count)" by (cases st)
  define st1 where
    "st1 = (if rd dat (i * lineSize - lineSize) \<noteq> rd dat (i * lineSize)
                then (wr points (i * width1) (if truthy (rd dat (i * lineSize)) then 1 else 8),
                      count + 1)
                else (points, count))"
  define s where "s = (if truthy (rd dat (i * lineSize)) then 4 else 0)
                + (if truthy (rd dat (i * lineSize - lineSize)) then (8::nat) else 0)"
  obtain p2 c2 pos j where
    l: "innerLoop dat w lineSize (i * width1) 1 (i * lineSize) s (fst st1, snd st1)
          = ((p2, c2), pos, j)"
    by (metis prod.collapse)
  have "count \<le> snd st1" by (simp add: st1_def)
  also have "\<dots> \<le> c2" by (rule innerLoop_count [OF l])
  also have "\<dots> \<le> snd (middleRow dat w lineSize width1 i st)"
    using l by (simp add: middleRow_def st st1_def [symmetric] s_def [symmetric] Let_def)
  finally show ?thesis by (simp add: st)
qed

lemma lastRow_count: "snd st \<le> snd (lastRow dat w h lineSize width1 i st)"
proof -
  obtain points count where st: "st = (points, count)" by (cases st)
  define st1 where
    "st1 = (if rd dat (lineSize * (h - 1)) \<noteq> Some 0 then (wr points (i * width1) 8, count + 1)
            else (points, count))"
  obtain p2 c2 pos j where
    l: "borderLoop dat w (i * width1) 4 8 1 (lineSize * (h - 1)) (fst st1, snd st1)
          = ((p2, c2), pos, j)"
    by (metis prod.collapse)
  have "count \<le> snd st1" by (simp add: st1_def)
  also have "\<dots> \<le> c2" by (rule borderLoop_count [OF l])
  also have "\<dots> \<le> snd (lastRow dat w h lineSize width1 i st)"
    using l by (simp add: lastRow_def st st1_def [symmetric] Let_def)
  finally show ?thesis by (simp add: st)
qed

lemma rowsAll_count: "snd st \<le> snd (fst (rowsAll dat w h lineSize width1 i st))"
proof (induction dat w h lineSize width1 i st rule: rowsAll.induct)
  case (1 dat w h lineSize width1 i st)
  show ?case
  proof (cases "i < h")
    case True
    have "snd st \<le> snd (middleRow dat w lineSize width1 i st)"
      by (rule middleRow_count)
    also have "\<dots> \<le> snd (fst (rowsAll dat w h lineSize width1 (i + 1)
        (middleRow dat w lineSize width1 i st)))"
      by (rule "1.IH" [OF True])
    also have "\<dots> = snd (fst (rowsAll dat w h lineSize width1 i st))"
      using True by (subst (2) rowsAll.simps) simp
    finally show ?thesis .
  next
    case False
    then show ?thesis
      by (subst rowsAll.simps) simp
  qed
qed

lemma rowsLoop_rowsAll:
  "(case rowsLoop dat w h lineSize width1 i st of
      None \<Rightarrow> POINT_TO_PROCESS_LIMIT < snd (fst (rowsAll dat w h lineSize width1 i st))
    | Some r \<Rightarrow> r = rowsAll dat w h lineSize width1 i st)"
proof (induction dat w h lineSize width1 i st rule: rowsAll.induct)
  case (1 dat w h lineSize width1 i st)
  show ?case
  proof (cases "i < h")
    case False
    then show ?thesis
      by (subst rowsLoop.simps, subst rowsAll.simps, subst rowsAll.simps) simp
  next
    case True
    define st' where "st' = middleRow dat w lineSize width1 i st"
    have all: "rowsAll dat w h lineSize width1 i st = rowsAll dat w h lineSize width1 (i + 1) st'"
      using True by (subst rowsAll.simps) (simp add: st'_def)
    show ?thesis
    proof (cases "snd st' > POINT_TO_PROCESS_LIMIT")
      case over: True
      then have "rowsLoop dat w h lineSize width1 i st = None"
        using True by (subst rowsLoop.simps) (auto simp: st'_def [symmetric] split: prod.splits)
      moreover have "POINT_TO_PROCESS_LIMIT < snd (fst (rowsAll dat w h lineSize width1 (i + 1) st'))"
        using over rowsAll_count [of st' dat w h lineSize width1 "i + 1"] by linarith
      ultimately show ?thesis by (simp add: all)
    next
      case under: False
      then have "rowsLoop dat w h lineSize width1 i st
          = rowsLoop dat w h lineSize width1 (i + 1) st'"
        using True by (subst rowsLoop.simps) (auto simp: st'_def [symmetric] split: prod.splits)
      with "1.IH" [OF True] show ?thesis
        unfolding all st'_def by simp
    qed
  qed
qed

lemma classify_None_iff:
  "classify dat w h lineSize width1 points = None \<longleftrightarrow>
     POINT_TO_PROCESS_LIMIT <
       snd (lastRow dat w h lineSize width1
              (snd (rowsAll dat w h lineSize width1 1 (firstRow dat w (points, 0))))
              (fst (rowsAll dat w h lineSize width1 1 (firstRow dat w (points, 0)))))"
proof (cases "rowsLoop dat w h lineSize width1 1 (firstRow dat w (points, 0))")
  case None
  with rowsLoop_rowsAll [of dat w h lineSize width1 1 "firstRow dat w (points, 0)"]
  have "POINT_TO_PROCESS_LIMIT <
      snd (fst (rowsAll dat w h lineSize width1 1 (firstRow dat w (points, 0))))"
    by simp
  also have "\<dots> \<le> snd (lastRow dat w h lineSize width1
              (snd (rowsAll dat w h lineSize width1 1 (firstRow dat w (points, 0))))
              (fst (rowsAll dat w h lineSize width1 1 (firstRow dat w (points, 0)))))"
    by (rule lastRow_count)
  finally show ?thesis
    using None by (simp add: classify_def)
next
  case (Some r)
  with rowsLoop_rowsAll [of dat w h lineSize width1 1 "firstRow dat w (points, 0)"]
  have "r = rowsAll dat w h lineSize width1 1 (firstRow dat w (points, 0))"
    by simp
  with Some show ?thesis
    by (simp add: classify_def split: prod.splits)
qed

text \<open>
  C5. \<^verbatim>\<open>compileType3Glyph\<close> returns \<^verbatim>\<open>null\<close> exactly when the width or the height is
  above 1000, or the count of classified corner points runs above 1000. The count only grows
  while the points are classified, so it is above the limit at one of the checks exactly
  when its final value is. The dimension gate does not look at the pixels, and a
  \<^verbatim>\<open>null\<close> carries no path: both returns come before the path buffer exists. A call
  that returns an outline, or that does not return, is not a \<^verbatim>\<open>null\<close>.
\<close>

theorem compileType3Glyph_null_iff:
  "compileType3Glyph glyph = Some Null \<longleftrightarrow>
     (width glyph > 1000 \<or> height glyph > 1000 \<or> classifiedCount glyph > 1000)"
proof (cases "width glyph > MAX_SIZE_TO_COMPILE \<or> height glyph > MAX_SIZE_TO_COMPILE")
  case True
  then show ?thesis
    by (auto simp: compileType3Glyph_def MAX_SIZE_TO_COMPILE_def Let_def)
next
  case False
  define w where "w = width glyph"
  define h where "h = height glyph"
  define dat where "dat = unpack (data glyph) (lineSizeOf w * h)"
  define points where "points = replicate ((w + 1) * (h + 1)) (0::nat)"
  have count: "classifiedCount glyph =
      snd (lastRow dat (int w) (int h) (int (lineSizeOf w)) (int (w + 1))
        (snd (rowsAll dat (int w) (int h) (int (lineSizeOf w)) (int (w + 1)) 1
           (firstRow dat (int w) (points, 0))))
        (fst (rowsAll dat (int w) (int h) (int (lineSizeOf w)) (int (w + 1)) 1
           (firstRow dat (int w) (points, 0)))))"
    by (simp add: classifiedCount_def Let_def w_def h_def dat_def points_def split: prod.splits)
  have null: "compileType3Glyph glyph = Some Null \<longleftrightarrow>
      classify dat (int w) (int h) (int (lineSizeOf w)) (int (w + 1)) points = None"
    using False
    by (auto simp: compileType3Glyph_def Let_def w_def h_def dat_def points_def
        split: option.splits prod.splits)
  from False show ?thesis
    unfolding null classify_None_iff count [symmetric]
    by (simp add: MAX_SIZE_TO_COMPILE_def POINT_TO_PROCESS_LIMIT_def)
qed

theorem compileType3Glyph_null_iff_witness:
  "compileType3Glyph \<lparr>data = [], width = 1001, height = 1\<rparr> = Some Null
   \<and> classifiedCount \<lparr>data = [0x00], width = 1, height = 1\<rparr> = 4
   \<and> compileType3Glyph \<lparr>data = [0x00], width = 1, height = 1\<rparr> \<noteq> Some Null"
proof -
  have c: "classifiedCount \<lparr>data = [0x00], width = 1, height = 1\<rparr> = 4"
    by code_simp
  show ?thesis
    using compileType3Glyph_null_iff [of "\<lparr>data = [], width = 1001, height = 1\<rparr>"]
      compileType3Glyph_null_iff [of "\<lparr>data = [0x00], width = 1, height = 1\<rparr>"] c
    by simp
qed

subsection \<open>\<^verbatim>\<open>compileType3Glyph\<close>: closed contours\<close>

lemma scanRow_bounds:
  "start \<le> e \<Longrightarrow> start \<le> scanRow points e start \<and> scanRow points e start \<le> e"
proof (induction points e start rule: scanRow.induct)
  case (1 points e p)
  show ?case
  proof (cases "p < e \<and> \<not> truthy (rd points p)")
    case True
    then have "scanRow points e p = scanRow points e (p + 1)"
      by (subst scanRow.simps) simp
    with "1.IH" [OF True] True show ?thesis by simp
  next
    case False
    then have "scanRow points e p = p"
      by (subst scanRow.simps) auto
    with "1.prems" show ?thesis by simp
  qed
qed

lemma walk_path:
  assumes "walk m width1 p0 st t p = Some y"
  shows "\<exists>ls. snd (snd y) =
            snd (snd st) @ ls @ [(lineTo, applyMatrix m (p0 mod width1) (p0 div width1))]
          \<and> (\<forall>c \<in> set ls. fst c = lineTo)"
proof (rule walk.raw_induct [where P = "\<lambda>m width1 p0 st t p y.
      \<exists>ls. snd (snd y) =
            snd (snd st) @ ls @ [(lineTo, applyMatrix m (p0 mod width1) (p0 div width1))]
          \<and> (\<forall>c \<in> set ls. fst c = lineTo)", OF _ assms])
  fix walk :: "matrix \<Rightarrow> int \<Rightarrow> int \<Rightarrow> nat list \<times> int \<times> path_cmd list \<Rightarrow> nat \<Rightarrow> int
     \<Rightarrow> (nat list \<times> int \<times> path_cmd list) option"
  fix m width1 p0 st t p y
  assume IH: "\<And>m width1 p0 st t p y. walk m width1 p0 st t p = Some y \<Longrightarrow>
      \<exists>ls. snd (snd y) =
            snd (snd st) @ ls @ [(lineTo, applyMatrix m (p0 mod width1) (p0 div width1))]
          \<and> (\<forall>c \<in> set ls. fst c = lineTo)"
  assume prem: "(case stepOf width1 t of None \<Rightarrow> None
      | Some step \<Rightarrow>
          Option.bind (advance (fst st) step p)
           (\<lambda>p. case rd (fst st) p of None \<Rightarrow> None
                | Some pp \<Rightarrow>
                    let (points, count, pathBuf) = st;
                        type = if pp \<noteq> 5 \<and> pp \<noteq> 10 then pp
                               else pp AND drop_bit 4 (51 * t);
                        points = if pp \<noteq> 5 \<and> pp \<noteq> 10 then wr points p 0
                                 else wr points p (pp AND (drop_bit 2 type OR push_bit 2 type));
                        x = p mod width1; y = p div width1;
                        pathBuf = pathBuf @ [(lineTo, applyMatrix m x y)];
                        count = if \<not> truthy (rd points p) then count - 1 else count
                    in if p0 \<noteq> p
                       then walk m width1 p0 (points, count, pathBuf) type p
                       else Some (points, count, pathBuf))) = Some y"
  obtain points count pathBuf where st: "st = (points, count, pathBuf)"
    by (cases st)
  from prem obtain step where step: "stepOf width1 t = Some step"
    by (auto split: option.splits)
  with prem obtain q where q: "advance points step p = Some q"
    by (auto simp: st split: bind_splits)
  with prem step obtain pp where pp: "rd points q = Some pp"
    by (auto simp: st split: option.splits)
  define t' where "t' = (if pp \<noteq> 5 \<and> pp \<noteq> 10 then pp else pp AND drop_bit 4 (0x33 * t))"
  define points' where "points' = (if pp \<noteq> 5 \<and> pp \<noteq> 10 then wr points q 0
       else wr points q (pp AND (drop_bit 2 t' OR push_bit 2 t')))"
  define pathBuf' where
    "pathBuf' = pathBuf @ [(lineTo, applyMatrix m (q mod width1) (q div width1))]"
  define count' where "count' = (if \<not> truthy (rd points' q) then count - 1 else count)"
  from prem have body:
    "(if p0 \<noteq> q then walk m width1 p0 (points', count', pathBuf') t' q
      else Some (points', count', pathBuf')) = Some y"
    by (simp only: st step q pp fst_conv option.case bind.bind_lunit Let_def prod.case
        t'_def points'_def pathBuf'_def count'_def)
  show "\<exists>ls. snd (snd y) =
            snd (snd st) @ ls @ [(lineTo, applyMatrix m (p0 mod width1) (p0 div width1))]
          \<and> (\<forall>c \<in> set ls. fst c = lineTo)"
  proof (cases "p0 = q")
    case True
    with body have "y = (points', count', pathBuf')" by simp
    then have "snd (snd y) = snd (snd st) @ [] @
        [(lineTo, applyMatrix m (p0 mod width1) (p0 div width1))]"
      by (simp add: st pathBuf'_def True)
    then show ?thesis by (metis empty_iff empty_set)
  next
    case False
    with body have "walk m width1 p0 (points', count', pathBuf') t' q = Some y" by simp
    from IH [OF this] obtain ls where
      ls: "snd (snd y) = pathBuf' @ ls @
          [(lineTo, applyMatrix m (p0 mod width1) (p0 div width1))]"
        "\<forall>c \<in> set ls. fst c = lineTo"
      by auto
    have "snd (snd y) = snd (snd st)
        @ ((lineTo, applyMatrix m (q mod width1) (q div width1)) # ls)
        @ [(lineTo, applyMatrix m (p0 mod width1) (p0 div width1))]"
      by (simp add: ls(1) pathBuf'_def st)
    moreover have "\<forall>c \<in> set ((lineTo, applyMatrix m (q mod width1) (q div width1)) # ls).
        fst c = lineTo"
      using ls(2) by simp
    ultimately show ?thesis by blast
  qed
qed

lemma contourStep_lineTos:
  "\<forall>c \<in> set ls. fst c = lineTo \<Longrightarrow>
   foldl contourStep (Some (Some xy, cur)) ls =
     Some (Some xy, if ls = [] then cur else Some (snd (last ls)))"
proof (induction ls arbitrary: cur)
  case Nil
  then show ?case by simp
next
  case (Cons c ls)
  then obtain z where c: "c = (lineTo, z)" by (cases c) auto
  from Cons.prems have "\<forall>c \<in> set ls. fst c = lineTo" by simp
  from Cons.IH [OF this, of "Some z"] show ?case
    by (simp add: c)
qed

lemma closed_append_contour:
  assumes "foldl contourStep (Some (None, None)) pathBuf = Some (s, s)"
    and "\<forall>c \<in> set ls. fst c = lineTo"
  shows "foldl contourStep (Some (None, None)) (pathBuf @ (moveTo, xy) # ls @ [(lineTo, xy)])
    = Some (Some xy, Some xy)"
proof -
  from assms(2) have "\<forall>c \<in> set (ls @ [(lineTo, xy)]). fst c = lineTo" by simp
  from contourStep_lineTos [OF this, of xy None]
  have "foldl contourStep (Some (Some xy, None)) (ls @ [(lineTo, xy)]) = Some (Some xy, Some xy)"
    by simp
  then show ?thesis
    using assms(1) by simp
qed

lemma row_of_point:
  fixes p i w :: int
  assumes "0 \<le> w" and "i * (w + 1) \<le> p" and "p < i * (w + 1) + w"
  shows "p div (w + 1) = i"
proof -
  have "p = i * (w + 1) + (p - i * (w + 1))" by simp
  moreover have "0 \<le> p - i * (w + 1)" "p - i * (w + 1) < w + 1"
    using assms by simp_all
  ultimately show ?thesis
    by (metis add.commute assms(1) div_pos_pos_trivial div_mult_self2 add_cancel_right_right
        less_irrefl mult.commute zless_add1_eq add_nonneg_pos zero_less_one)
qed

lemma outlines_closed:
  assumes "outlines m w h width1 i st = Some y"
    and "0 \<le> w" and "width1 = w + 1"
    and "\<exists>s. foldl contourStep (Some (None, None)) (snd (snd st)) = Some (s, s)"
  shows "\<exists>s. foldl contourStep (Some (None, None)) (snd (snd y)) = Some (s, s)"
proof -
  have "0 \<le> w \<longrightarrow> width1 = w + 1
      \<longrightarrow> (\<exists>s. foldl contourStep (Some (None, None)) (snd (snd st)) = Some (s, s))
      \<longrightarrow> (\<exists>s. foldl contourStep (Some (None, None)) (snd (snd y)) = Some (s, s))"
  proof (rule outlines.raw_induct [where P = "\<lambda>m w h width1 i st y.
        0 \<le> w \<longrightarrow> width1 = w + 1
        \<longrightarrow> (\<exists>s. foldl contourStep (Some (None, None)) (snd (snd st)) = Some (s, s))
        \<longrightarrow> (\<exists>s. foldl contourStep (Some (None, None)) (snd (snd y)) = Some (s, s))",
        OF _ assms(1)])
    fix outlines :: "matrix \<Rightarrow> int \<Rightarrow> int \<Rightarrow> int \<Rightarrow> int \<Rightarrow> nat list \<times> int \<times> path_cmd list
       \<Rightarrow> (nat list \<times> int \<times> path_cmd list) option"
    fix m w h width1 i st y
    assume IH: "\<And>m w h width1 i st y. outlines m w h width1 i st = Some y \<Longrightarrow>
        0 \<le> w \<longrightarrow> width1 = w + 1
        \<longrightarrow> (\<exists>s. foldl contourStep (Some (None, None)) (snd (snd st)) = Some (s, s))
        \<longrightarrow> (\<exists>s. foldl contourStep (Some (None, None)) (snd (snd y)) = Some (s, s))"
    assume prem: "(if fst (snd st) \<noteq> 0 \<and> i \<le> h
      then let p = scanRow (fst st) (i * width1 + w) (i * width1)
           in if p = i * width1 + w then outlines m w h width1 (i + 1) st
              else case rd (fst st) p of None \<Rightarrow> None
                   | Some type \<Rightarrow>
                       let (points, count, pathBuf) = st; x = p mod width1;
                           y = i;
                           pathBuf = pathBuf @ [(moveTo, applyMatrix m x y)]
                       in Option.bind
                           (walk m width1 p (points, count, pathBuf) type p)
                           (outlines m w h width1 i)
      else Some st) = Some y"
    show "0 \<le> w \<longrightarrow> width1 = w + 1
        \<longrightarrow> (\<exists>s. foldl contourStep (Some (None, None)) (snd (snd st)) = Some (s, s))
        \<longrightarrow> (\<exists>s. foldl contourStep (Some (None, None)) (snd (snd y)) = Some (s, s))"
    proof (intro impI)
      assume w: "0 \<le> w" and w1: "width1 = w + 1"
        and inv: "\<exists>s. foldl contourStep (Some (None, None)) (snd (snd st)) = Some (s, s)"
      obtain points count pathBuf where st: "st = (points, count, pathBuf)"
        by (cases st)
      define p where "p = scanRow points (i * width1 + w) (i * width1)"
      show "\<exists>s. foldl contourStep (Some (None, None)) (snd (snd y)) = Some (s, s)"
      proof (cases "count \<noteq> 0 \<and> i \<le> h")
        case False
        with prem have "y = st" by (auto simp: st)
        with inv show ?thesis by simp
      next
        case True
        show ?thesis
        proof (cases "p = i * width1 + w")
          case e: True
          with prem True have "outlines m w h width1 (i + 1) st = Some y"
            by (simp add: st p_def Let_def)
          from IH [OF this] w w1 inv show ?thesis by blast
        next
          case e: False
          with prem True obtain t where t: "rd points p = Some t"
            by (auto simp: st p_def [symmetric] Let_def split: option.splits)
          define pathBuf' where
            "pathBuf' = pathBuf @ [(moveTo, applyMatrix m (p mod width1) i)]"
          from prem True e t have
            "Option.bind (walk m width1 p (points, count, pathBuf') t p)
               (outlines m w h width1 i) = Some y"
            by (simp add: st p_def [symmetric] Let_def pathBuf'_def)
          then obtain st2 where
            walk: "walk m width1 p (points, count, pathBuf') t p = Some st2"
            and rest: "outlines m w h width1 i st2 = Some y"
            by (auto split: bind_splits)
          from walk_path [OF walk] obtain ls where
            ls: "snd (snd st2) = pathBuf' @ ls @
                [(lineTo, applyMatrix m (p mod width1) (p div width1))]"
              "\<forall>c \<in> set ls. fst c = lineTo"
            by auto
          have "i * width1 \<le> p \<and> p \<le> i * width1 + w"
            unfolding p_def using w by (intro scanRow_bounds) simp
          with e have "i * (w + 1) \<le> p" "p < i * (w + 1) + w"
            by (simp_all add: w1)
          from row_of_point [OF w this] have row: "p div width1 = i"
            by (simp add: w1)
          from inv obtain s where
            "foldl contourStep (Some (None, None)) pathBuf = Some (s, s)"
            by (auto simp: st)
          from closed_append_contour [OF this ls(2), of "applyMatrix m (p mod width1) i"]
          have "\<exists>s. foldl contourStep (Some (None, None)) (snd (snd st2)) = Some (s, s)"
            by (simp add: ls(1) pathBuf'_def row)
          with IH [OF rest] w w1 show ?thesis by blast
        qed
      qed
    qed
  qed
  with assms(2-4) show ?thesis by blast
qed

text \<open>
  C6. Every contour of a path that \<^verbatim>\<open>compileType3Glyph\<close> returns is closed: each move-to
  is followed by at least one line-to, and the last line-to before the next move-to, or
  before the end of the path, has the coordinates of that move-to. The walk leaves its loop
  only at \<open>p0\<close>, the point of the move-to, which lies in row \<open>i\<close>.
\<close>

theorem contours_are_closed:
  assumes "compileType3Glyph glyph = Some (Outline path box)"
  shows "contoursClosed path"
proof -
  from assms obtain points count points' count' where
    "outlines (glyphMatrix (width glyph) (height glyph)) (int (width glyph))
       (int (height glyph)) (int (width glyph + 1)) 0 (points, count, [])
     = Some (points', count', path)"
    by (auto simp: compileType3Glyph_def Let_def split: if_splits option.splits prod.splits)
  from outlines_closed [OF this] obtain s where
    "foldl contourStep (Some (None, None)) path = Some (s, s)"
    by auto
  then show ?thesis
    by (simp add: contoursClosed_def)
qed

theorem contours_are_closed_witness:
  "compileType3Glyph \<lparr>data = [0x00, 0x40, 0x00], width = 3, height = 3\<rparr> =
     Some (Outline
       [(moveTo, 0, 1), (lineTo, 0, 0), (lineTo, 1, 0), (lineTo, 1, 1), (lineTo, 0, 1),
        (moveTo, 1 / 3, 2 / 3), (lineTo, 2 / 3, 2 / 3), (lineTo, 2 / 3, 1 / 3),
        (lineTo, 1 / 3, 1 / 3), (lineTo, 1 / 3, 2 / 3)]
       (0, 0, 3, 3))
   \<and> contoursClosed
       [(moveTo, 0, 1), (lineTo, 0, 0), (lineTo, 1, 0), (lineTo, 1, 1), (lineTo, 0, 1),
        (moveTo, 1 / 3, 2 / 3), (lineTo, 2 / 3, 2 / 3), (lineTo, 2 / 3, 1 / 3),
        (lineTo, 1 / 3, 1 / 3), (lineTo, 1 / 3, 2 / 3)]"
proof -
  have c: "compileType3Glyph \<lparr>data = [0x00, 0x40, 0x00], width = 3, height = 3\<rparr> =
     Some (Outline
       [(moveTo, 0, 1), (lineTo, 0, 0), (lineTo, 1, 0), (lineTo, 1, 1), (lineTo, 0, 1),
        (moveTo, 1 / 3, 2 / 3), (lineTo, 2 / 3, 2 / 3), (lineTo, 2 / 3, 1 / 3),
        (lineTo, 1 / 3, 1 / 3), (lineTo, 1 / 3, 2 / 3)]
       (0, 0, 3, 3))"
    by code_simp
  from contours_are_closed [OF c] c show ?thesis by blast
qed

end
